theory Spec2Isabelle
  imports Main "HOL-Library.Word"
begin

unbundle bit_operations_syntax

section \<open>Machine types and constants of daikin_ir.ino\<close>

text \<open>
  The sketch targets the ATmega328 (the comment on \<open>sig\<close> names it): \<open>uint8_t\<close>,
  \<open>uint16_t\<close> and \<open>uint32_t\<close> are words of that width, \<open>unsigned long\<close> is 32 bits,
  and a data pointer occupies two bytes.
\<close>

type_synonym u8 = "8 word"
type_synonym u16 = "16 word"
type_synonym u32 = "32 word"

definition kRxTimeoutMicros :: u32 where
  "kRxTimeoutMicros = push_bit 16 1"

definition kDelay1Millis :: u32 where
  "kDelay1Millis = 12 * 60 * 60 * 1000"

definition kCycleMillis :: u32 where
  "kCycleMillis = 24 * 60 * 60 * 1000"

definition kCarrierFreq :: u32 where
  "kCarrierFreq = 38000"

definition kRedLedPin :: u8 where "kRedLedPin = 3"
definition kButtonPin :: u8 where "kButtonPin = 4"
definition kGreenLedPin :: u8 where "kGreenLedPin = 5"
definition kTxPin :: u8 where "kTxPin = 6"
definition kRxPin :: u8 where "kRxPin = 8"

text \<open>
  Constants of the Arduino core (Arduino.h and the board's pins_arduino.h), which the
  sketch uses and does not declare.
\<close>

definition LOW :: u8 where "LOW = 0"
definition HIGH :: u8 where "HIGH = 1"
definition OUTPUT :: u8 where "OUTPUT = 1"
definition INPUT_PULLUP :: u8 where "INPUT_PULLUP = 2"
definition LED_BUILTIN :: u8 where "LED_BUILTIN = 13"

text \<open>The enumerators of \<open>enum State\<close>, numbered from 0 in declaration order.\<close>

definition STATE_UNINITED :: u8 where "STATE_UNINITED = 0"
definition STATE_LEARN_0 :: u8 where "STATE_LEARN_0 = 1"
definition STATE_LEARN_1 :: u8 where "STATE_LEARN_1 = 2"
definition STATE_INITED :: u8 where "STATE_INITED = 3"
definition STATE_SEND_0 :: u8 where "STATE_SEND_0 = 4"
definition STATE_WAIT_0 :: u8 where "STATE_WAIT_0 = 5"
definition STATE_SEND_1 :: u8 where "STATE_SEND_1 = 6"
definition STATE_WAIT_1 :: u8 where "STATE_WAIT_1 = 7"

lemmas state_defs =
  STATE_UNINITED_def STATE_LEARN_0_def STATE_LEARN_1_def STATE_INITED_def
  STATE_SEND_0_def STATE_WAIT_0_def STATE_SEND_1_def STATE_WAIT_1_def

section \<open>Program state\<close>

text \<open>
  The calls the sketch makes on the hardware, in the order it makes them: the output
  trace of a run.
\<close>

datatype hw =
    PinMode u8 u8
  | DigitalWrite u8 u8
  | Tone u8 u32
  | NoTone u8
  | DelayMicroseconds u16

text \<open>
  A pointer into \<open>sig\<close> is the index of a cell of the flattened array
  (\<open>sig[i][j]\<close> is cell \<open>400 * i + j\<close>); \<open>None\<close> is \<open>nullptr\<close>. Reading or writing
  through \<open>nullptr\<close>, or through a pointer outside the 800 cells, is a fault.
\<close>

datatype fault = NullDeref | OutOfBounds

text \<open>
  \<open>kSlotLen\<close> is the number of cells of a slot, \<open>sizeof(sig[i]) / sizeof(uint16_t)\<close>;
  \<open>sizeof_u16\<close> is the size of a cell in bytes and \<open>sizeof_ptr\<close> the size of a data
  pointer, which is what \<open>sizeof(rxBuf)\<close> is.
\<close>

definition kSlotLen :: nat where
  "kSlotLen = 400"

definition kSigCells :: nat where
  "kSigCells = 2 * kSlotLen"

definition sizeof_u16 :: nat where
  "sizeof_u16 = 2"

definition sizeof_ptr :: nat where
  "sizeof_ptr = 2"

text \<open>The global variables of the sketch, and the output trace.\<close>

record prog =
  state :: u8
  prevButton :: u8
  sig :: "nat \<Rightarrow> u16"
  rxBuf :: "nat option"
  rxSize :: u16
  prevRx :: u8
  startMicros :: u32
  txBuf :: "nat option"
  txLen :: u16
  txHigh :: bool
  waitStartMillis :: u32
  waitDelayMillis :: u32
  out :: "hw list"

definition emit :: "hw \<Rightarrow> prog \<Rightarrow> prog" where
  "emit a s = s\<lparr>out := out s @ [a]\<rparr>"

definition slotBase :: "u8 \<Rightarrow> nat" where
  "slotBase i = kSlotLen * unat i"

section \<open>The functions of the sketch\<close>

text \<open>
  \<open>memset(p, 0, n)\<close> on the cells of \<open>sig\<close>: \<open>n\<close> bytes are \<open>n div sizeof_u16\<close> cells.
\<close>

definition memset0 :: "(nat \<Rightarrow> u16) \<Rightarrow> nat \<Rightarrow> nat \<Rightarrow> (nat \<Rightarrow> u16)" where
  "memset0 m p n = (\<lambda>a. if p \<le> a \<and> a < p + n div sizeof_u16 then 0 else m a)"

text \<open>
  \<open>startRx\<close>. The byte count of the \<open>memset\<close> is \<open>rxSize * sizeof(rxBuf)\<close>, the size of
  the pointer and not of the cell it points to; \<open>psz\<close> is that size.
\<close>

definition startRx_on :: "nat \<Rightarrow> u8 \<Rightarrow> prog \<Rightarrow> fault + prog" where
  "startRx_on psz i s =
     (let p = slotBase i;
          n = kSlotLen * psz
      in if p + n div sizeof_u16 \<le> kSigCells
         then Inr (s\<lparr>rxBuf := Some p, rxSize := of_nat kSlotLen,
                     sig := memset0 (sig s) p n, startMicros := 0, prevRx := HIGH\<rparr>)
         else Inl OutOfBounds)"

definition startRx :: "u8 \<Rightarrow> prog \<Rightarrow> fault + prog" where
  "startRx i s = startRx_on sizeof_ptr i s"

text \<open>The loop of \<open>startTx\<close> that drops the unused tail: \<open>n\<close> is \<open>txLen\<close>.\<close>

fun trimTail :: "(nat \<Rightarrow> u16) \<Rightarrow> nat \<Rightarrow> nat \<Rightarrow> nat" where
  "trimTail m p 0 = 0"
| "trimTail m p (Suc n) = (if m (p + n) = 0 then trimTail m p n else Suc n)"

definition startTx :: "u8 \<Rightarrow> prog \<Rightarrow> fault + prog" where
  "startTx i s =
     (let s1 = emit (DigitalWrite kRedLedPin HIGH) s;
          p = slotBase i
      in if p + kSlotLen \<le> kSigCells
         then Inr (s1\<lparr>txBuf := Some p, txLen := of_nat (trimTail (sig s1) p kSlotLen),
                      txHigh := False\<rparr>)
         else Inl OutOfBounds)"

text \<open>\<open>startWait\<close>; \<open>ms\<close> is what \<open>millis()\<close> returns.\<close>

definition startWait :: "u32 \<Rightarrow> u32 \<Rightarrow> prog \<Rightarrow> prog" where
  "startWait ms delayMillis s =
     (emit (DigitalWrite kRedLedPin LOW) s)\<lparr>waitStartMillis := ms, waitDelayMillis := delayMillis\<rparr>"

definition setState :: "u32 \<Rightarrow> u8 \<Rightarrow> prog \<Rightarrow> fault + prog" where
  "setState ms newState s =
     (if newState = state s then Inr s
      else let s1 = s\<lparr>state := newState\<rparr> in
        if newState = STATE_UNINITED then
          Inr (emit (DigitalWrite kGreenLedPin LOW) (emit (DigitalWrite kRedLedPin LOW) s1))
        else if newState = STATE_LEARN_0 then
          startRx 0 (emit (DigitalWrite kGreenLedPin LOW) (emit (DigitalWrite kRedLedPin HIGH) s1))
        else if newState = STATE_LEARN_1 then
          startRx 1 (emit (DigitalWrite kGreenLedPin HIGH) (emit (DigitalWrite kRedLedPin HIGH) s1))
        else if newState = STATE_INITED then
          Inr (emit (DigitalWrite kGreenLedPin HIGH) (emit (DigitalWrite kRedLedPin LOW) s1))
        else if newState = STATE_SEND_0 then startTx 0 s1
        else if newState = STATE_WAIT_0 then
          Inr (startWait ms kDelay1Millis (emit (DigitalWrite LED_BUILTIN HIGH) s1))
        else if newState = STATE_SEND_1 then startTx 1 s1
        else if newState = STATE_WAIT_1 then
          Inr (startWait ms (kCycleMillis - kDelay1Millis) (emit (DigitalWrite LED_BUILTIN LOW) s1))
        else Inr s1)"

text \<open>\<open>isButtonEvent\<close>; \<open>btn\<close> is what \<open>digitalRead(kButtonPin)\<close> returns.\<close>

definition isButtonEvent :: "u8 \<Rightarrow> prog \<Rightarrow> bool \<times> prog" where
  "isButtonEvent btn s =
     (if btn = prevButton s then (False, s)
      else (btn = HIGH, s\<lparr>prevButton := btn\<rparr>))"

definition loopUninitialized :: "u8 \<Rightarrow> u32 \<Rightarrow> prog \<Rightarrow> fault + prog" where
  "loopUninitialized btn ms s =
     (case isButtonEvent btn s of
        (True, s1) \<Rightarrow> setState ms STATE_LEARN_0 s1
      | (False, s1) \<Rightarrow> Inr s1)"

text \<open>
  \<open>loopRx\<close>; \<open>rx\<close> is what \<open>digitalRead(kRxPin)\<close> returns and \<open>now\<close> what \<open>micros()\<close>
  returns. The store \<open>*rxBuf = now - startMicros\<close> keeps the low 16 bits.
\<close>

definition loopRx :: "u8 \<Rightarrow> u32 \<Rightarrow> u32 \<Rightarrow> prog \<Rightarrow> fault + prog" where
  "loopRx rx now ms s =
     (if startMicros s \<noteq> 0 \<and> now - startMicros s \<ge> kRxTimeoutMicros
      then setState ms (state s + 1) s
      else if rx = prevRx s then Inr s
      else case rxBuf s of
        None \<Rightarrow> Inl NullDeref
      | Some p \<Rightarrow>
          if p < kSigCells then
            let s1 = s\<lparr>prevRx := rx,
                       sig := (sig s)(p := ucast (now - startMicros s)),
                       rxBuf := Some (p + 1),
                       rxSize := rxSize s - 1,
                       startMicros := now\<rparr>
            in if rxSize s1 = 0 then setState ms STATE_UNINITED s1 else Inr s1
          else Inl OutOfBounds)"

definition loopInitialized :: "u8 \<Rightarrow> u32 \<Rightarrow> prog \<Rightarrow> fault + prog" where
  "loopInitialized btn ms s =
     (case isButtonEvent btn s of
        (True, s1) \<Rightarrow> setState ms STATE_SEND_0 s1
      | (False, s1) \<Rightarrow> Inr s1)"

text \<open>
  \<open>loopTx\<close>. \<open>txDrive\<close> is its first block, run when \<open>*txBuf\<close> is not zero.
\<close>

definition txDrive :: "u16 \<Rightarrow> prog \<Rightarrow> prog" where
  "txDrive d s =
     emit (DelayMicroseconds d)
       (emit (if txHigh s then Tone kTxPin kCarrierFreq else NoTone kTxPin) s)"

definition loopTx :: "u32 \<Rightarrow> prog \<Rightarrow> fault + prog" where
  "loopTx ms s =
     (case txBuf s of
        None \<Rightarrow> Inl NullDeref
      | Some p \<Rightarrow>
          if p < kSigCells then
            let s1 = (if sig s p \<noteq> 0 then txDrive (sig s p) s else s);
                s2 = s1\<lparr>txBuf := Some (p + 1), txLen := txLen s1 - 1, txHigh := \<not> txHigh s1\<rparr>
            in if txLen s2 = 0
               then setState ms (state s2 + 1) ((emit (NoTone kTxPin) s2)\<lparr>txBuf := None\<rparr>)
               else Inr s2
          else Inl OutOfBounds)"

text \<open>\<open>loopWait\<close>; \<open>ms\<close> is what \<open>millis()\<close> returns.\<close>

definition loopWait :: "u8 \<Rightarrow> u32 \<Rightarrow> prog \<Rightarrow> fault + prog" where
  "loopWait btn ms s =
     (case isButtonEvent btn s of
        (True, s1) \<Rightarrow> setState ms STATE_SEND_0 s1
      | (False, s1) \<Rightarrow>
          if ms - waitStartMillis s1 > waitDelayMillis s1
          then setState ms (state s1 + 1) (s1\<lparr>waitStartMillis := 0\<rparr>)
          else Inr s1)"

text \<open>
  The globals of a C program start as zero; \<open>setup_board\<close> is the sketch's \<open>setup()\<close>.
\<close>

definition powerOn :: prog where
  "powerOn = \<lparr>state = 0, prevButton = 0, sig = (\<lambda>_. 0), rxBuf = None, rxSize = 0,
     prevRx = 0, startMicros = 0, txBuf = None, txLen = 0, txHigh = False,
     waitStartMillis = 0, waitDelayMillis = 0, out = []\<rparr>"

definition setup_board :: "prog \<Rightarrow> prog" where
  "setup_board s =
     (s\<lparr>prevButton := HIGH, prevRx := HIGH\<rparr>)
       \<lparr>out := out s @
          [PinMode kRxPin INPUT_PULLUP, PinMode kButtonPin INPUT_PULLUP,
           PinMode kTxPin OUTPUT, DigitalWrite kTxPin LOW,
           PinMode kRedLedPin OUTPUT, DigitalWrite kRedLedPin LOW,
           PinMode kGreenLedPin OUTPUT, DigitalWrite kGreenLedPin LOW,
           PinMode LED_BUILTIN OUTPUT, DigitalWrite LED_BUILTIN LOW]\<rparr>"

text \<open>What one call of \<open>loop()\<close> reads from the hardware.\<close>

record inputs =
  buttonPin :: u8
  rxPin :: u8
  microsNow :: u32
  millisNow :: u32

definition loop :: "inputs \<Rightarrow> prog \<Rightarrow> fault + prog" where
  "loop inp s =
     (if state s = STATE_UNINITED then loopUninitialized (buttonPin inp) (millisNow inp) s
      else if state s = STATE_LEARN_0 \<or> state s = STATE_LEARN_1
        then loopRx (rxPin inp) (microsNow inp) (millisNow inp) s
      else if state s = STATE_INITED then loopInitialized (buttonPin inp) (millisNow inp) s
      else if state s = STATE_SEND_0 \<or> state s = STATE_SEND_1 then loopTx (millisNow inp) s
      else if state s = STATE_WAIT_0 \<or> state s = STATE_WAIT_1
        then loopWait (buttonPin inp) (millisNow inp) s
      else setState (millisNow inp) STATE_SEND_0 s)"

text \<open>The states the sketch can be in: \<open>setup()\<close> once, then any number of \<open>loop()\<close> calls.\<close>

inductive reachable :: "prog \<Rightarrow> bool" where
  reachable_setup: "reachable (setup_board powerOn)"
| reachable_loop: "reachable s \<Longrightarrow> loop inp s = Inr s' \<Longrightarrow> reachable s'"

section \<open>Runs of the sketch\<close>

text \<open>Polling the button once per level of \<open>btns\<close>: the results, and the final state.\<close>

fun pollButton :: "u8 list \<Rightarrow> prog \<Rightarrow> bool list \<times> prog" where
  "pollButton [] s = ([], s)"
| "pollButton (b # bs) s =
     (case isButtonEvent b s of (e, s1) \<Rightarrow>
        (case pollButton bs s1 of (es, s2) \<Rightarrow> (e # es, s2)))"

text \<open>Calling \<open>loop()\<close> once per element of a list of readings, stopping at a fault.\<close>

definition poll :: "u8 \<Rightarrow> u8 \<Rightarrow> u32 \<Rightarrow> u32 \<Rightarrow> inputs" where
  "poll b r us ms = \<lparr>buttonPin = b, rxPin = r, microsNow = us, millisNow = ms\<rparr>"

fun run :: "inputs list \<Rightarrow> prog \<Rightarrow> fault + prog" where
  "run [] s = Inr s"
| "run (i # is) s = (case loop i s of Inl e \<Rightarrow> Inl e | Inr s1 \<Rightarrow> run is s1)"

text \<open>Repeated \<open>loopTx\<close> polls; the list holds what \<open>millis()\<close> returns at each.\<close>

fun pollsTx :: "u32 list \<Rightarrow> prog \<Rightarrow> fault + prog" where
  "pollsTx [] s = Inr s"
| "pollsTx (ms # mss) s = (case loopTx ms s of Inl e \<Rightarrow> Inl e | Inr s1 \<Rightarrow> pollsTx mss s1)"

text \<open>Repeated \<open>loopRx\<close> polls; each element is the pin level and the \<open>micros()\<close> value read.\<close>

fun pollsRx :: "(u8 \<times> u32) list \<Rightarrow> u32 \<Rightarrow> prog \<Rightarrow> fault + prog" where
  "pollsRx [] ms s = Inr s"
| "pollsRx ((rx, now) # ps) ms s =
     (case loopRx rx now ms s of Inl e \<Rightarrow> Inl e | Inr s1 \<Rightarrow> pollsRx ps ms s1)"

text \<open>
  A simulated receive pin is the list of the polls made of it: the level and the
  \<open>micros()\<close> value read at each. \<open>edges lvl ps\<close> are the times of the polls that read
  another level than the poll before (\<open>lvl\<close>, before the first): the transitions the
  sketch can see. \<open>quiet prev lvl ps\<close> says that no poll of \<open>ps\<close> comes 65,536
  microseconds or more after the transition before it, \<open>prev\<close> being the time of the
  transition before \<open>ps\<close>, if there is one.
\<close>

fun edges :: "u8 \<Rightarrow> (u8 \<times> u32) list \<Rightarrow> u32 list" where
  "edges lvl [] = []"
| "edges lvl ((rx, t) # ps) = (if rx = lvl then edges lvl ps else t # edges rx ps)"

fun quiet :: "u32 option \<Rightarrow> u8 \<Rightarrow> (u8 \<times> u32) list \<Rightarrow> bool" where
  "quiet prev lvl [] = True"
| "quiet prev lvl ((rx, t) # ps) =
     ((case prev of None \<Rightarrow> True | Some t0 \<Rightarrow> t - t0 < kRxTimeoutMicros) \<and>
      (if rx = lvl then quiet prev lvl ps else quiet (Some t) rx ps))"

text \<open>
  Transition times that increase, each less than the receive timeout after the one
  before.
\<close>

fun edgeTimes :: "u32 list \<Rightarrow> bool" where
  "edgeTimes [] = True"
| "edgeTimes [t] = True"
| "edgeTimes (t # t' # ts) = (t < t' \<and> t' - t < kRxTimeoutMicros \<and> edgeTimes (t' # ts))"

text \<open>
  The carrier calls the specification expects of playback: entry \<open>k\<close> of a slot is
  driven for its duration with the carrier off for even \<open>k\<close> and on for odd \<open>k\<close>; an
  entry of zero microseconds has no extent and makes no call.
\<close>

definition txSegment :: "bool \<Rightarrow> u16 \<Rightarrow> hw list" where
  "txSegment high d =
     (if d = 0 then []
      else [if high then Tone kTxPin kCarrierFreq else NoTone kTxPin, DelayMicroseconds d])"

fun playbackTrace :: "(nat \<Rightarrow> u16) \<Rightarrow> nat \<Rightarrow> nat \<Rightarrow> hw list" where
  "playbackTrace m p 0 = []"
| "playbackTrace m p (Suc k) = playbackTrace m p k @ txSegment (odd k) (m (p + k))"

text \<open>
  What the hardware makes of a trace, microsecond by microsecond: \<open>tone\<close> on the
  transmit pin starts the carrier, \<open>noTone\<close> stops it, and \<open>delayMicroseconds(d)\<close> lets
  \<open>d\<close> microseconds pass at the level the carrier has. \<open>lvl\<close> is the level before the
  trace.
\<close>

fun carrierLevels :: "bool \<Rightarrow> hw list \<Rightarrow> bool list" where
  "carrierLevels lvl [] = []"
| "carrierLevels lvl (Tone pin f # as) = carrierLevels (if pin = kTxPin then True else lvl) as"
| "carrierLevels lvl (NoTone pin # as) = carrierLevels (if pin = kTxPin then False else lvl) as"
| "carrierLevels lvl (DelayMicroseconds d # as) = replicate (unat d) lvl @ carrierLevels lvl as"
| "carrierLevels lvl (PinMode pin m # as) = carrierLevels lvl as"
| "carrierLevels lvl (DigitalWrite pin v # as) = carrierLevels lvl as"

text \<open>
  The same for the entries \<open>0 .. k - 1\<close> of a stored slot, as the specification reads
  them: entry \<open>j\<close> lasts as many microseconds as its value, carrier off for even \<open>j\<close>
  and on for odd \<open>j\<close>.
\<close>

fun storedWave :: "(nat \<Rightarrow> u16) \<Rightarrow> nat \<Rightarrow> nat \<Rightarrow> bool list" where
  "storedWave m p 0 = []"
| "storedWave m p (Suc k) = storedWave m p k @ replicate (unat (m (p + k))) (odd k)"

text \<open>
  The capture cursor in a learning state: \<open>rxBuf\<close> points into the slot being learned,
  \<open>rxSize\<close> is the number of cells from it to the end of the slot, and no transition
  time is stored before the first transition.
\<close>

definition learning :: "prog \<Rightarrow> bool" where
  "learning s = (state s = STATE_LEARN_0 \<or> state s = STATE_LEARN_1)"

definition rxBase :: "prog \<Rightarrow> nat" where
  "rxBase s = (if state s = STATE_LEARN_0 then slotBase 0 else slotBase 1)"

definition rxCursorOk :: "prog \<Rightarrow> bool" where
  "rxCursorOk s =
     (case rxBuf s of
        None \<Rightarrow> False
      | Some p \<Rightarrow>
          rxBase s \<le> p \<and> p < rxBase s + kSlotLen \<and>
          unat (rxSize s) = rxBase s + kSlotLen - p \<and>
          (p = rxBase s \<longrightarrow> startMicros s = 0))"

section \<open>Properties: button edge detector\<close>

lemma isButtonEvent_fst: "fst (isButtonEvent b s) = (b = HIGH \<and> prevButton s \<noteq> HIGH)"
  by (auto simp: isButtonEvent_def)

lemma isButtonEvent_snd: "snd (isButtonEvent b s) = s\<lparr>prevButton := b\<rparr>"
  by (auto simp: isButtonEvent_def)

lemma pollButton_Cons:
  "pollButton (b # bs) s =
     (fst (isButtonEvent b s) # fst (pollButton bs (snd (isButtonEvent b s))),
      snd (pollButton bs (snd (isButtonEvent b s))))"
  by (simp add: case_prod_beta)

lemma pollButton_length: "length (fst (pollButton bs s)) = length bs"
proof (induction bs arbitrary: s)
  case Nil
  show ?case by simp
next
  case (Cons b bs)
  show ?case unfolding pollButton_Cons by (simp add: Cons.IH)
qed

lemma pollButton_snd: "snd (pollButton bs s) = s\<lparr>prevButton := last (prevButton s # bs)\<rparr>"
proof (induction bs arbitrary: s)
  case Nil
  show ?case by simp
next
  case (Cons b bs)
  have "snd (pollButton (b # bs) s) = snd (pollButton bs (snd (isButtonEvent b s)))"
    unfolding pollButton_Cons by simp
  also have "\<dots> = (s\<lparr>prevButton := b\<rparr>)\<lparr>prevButton := last (b # bs)\<rparr>"
    by (simp add: Cons.IH isButtonEvent_snd)
  finally show ?case by simp
qed

lemma pollButton_nth:
  "k < length bs \<Longrightarrow>
     fst (pollButton bs s) ! k = (bs ! k = HIGH \<and> (prevButton s # bs) ! k \<noteq> HIGH)"
proof (induction bs arbitrary: s k)
  case Nil
  then show ?case by simp
next
  case (Cons b bs)
  show ?case
  proof (cases k)
    case 0
    then show ?thesis unfolding pollButton_Cons by (simp add: isButtonEvent_fst)
  next
    case (Suc j)
    with Cons.prems have "j < length bs" by simp
    from Cons.IH [OF this, of "snd (isButtonEvent b s)"] Suc
    show ?thesis unfolding pollButton_Cons by (simp add: isButtonEvent_snd)
  qed
qed

text \<open>
  C6. For every sequence of button levels, the poll \<open>k\<close> reports an event exactly when
  the level read is HIGH and the level read before it (the stored one, for the first
  poll) is not HIGH: once per press, on its rising edge, never while the level is held
  and never on a release; and after the polls the stored previous level is the level
  read last.
\<close>

theorem isButtonEvent_rising_edge_only:
  "length (fst (pollButton bs s)) = length bs \<and>
   (\<forall>k < length bs.
      fst (pollButton bs s) ! k = (bs ! k = HIGH \<and> (prevButton s # bs) ! k \<noteq> HIGH)) \<and>
   snd (pollButton bs s) = s\<lparr>prevButton := last (prevButton s # bs)\<rparr> \<and>
   prevButton (snd (isButtonEvent b s)) = b"
  by (simp add: pollButton_length pollButton_nth pollButton_snd isButtonEvent_snd)

theorem isButtonEvent_rising_edge_only_witness:
  "fst (pollButton [LOW, HIGH, HIGH, LOW, HIGH] (setup_board powerOn))
     = [False, True, False, False, True] \<and>
   prevButton (snd (pollButton [LOW, HIGH, HIGH, LOW, HIGH] (setup_board powerOn))) = HIGH"
  using isButtonEvent_rising_edge_only
    [of "[LOW, HIGH, HIGH, LOW, HIGH]" "setup_board powerOn" HIGH]
  by (simp add: isButtonEvent_def setup_board_def powerOn_def HIGH_def LOW_def)

section \<open>Properties: state transitions\<close>

lemma startRx_ok:
  "i = 0 \<or> i = 1 \<Longrightarrow>
   startRx i s = Inr (s\<lparr>rxBuf := Some (slotBase i), rxSize := 400,
       sig := (\<lambda>a. if slotBase i \<le> a \<and> a < slotBase i + 400 then 0 else sig s a),
       startMicros := 0, prevRx := HIGH\<rparr>)"
  by (auto simp: startRx_def startRx_on_def slotBase_def kSlotLen_def kSigCells_def
      sizeof_ptr_def sizeof_u16_def memset0_def Let_def)

lemma startTx_ok:
  "i = 0 \<or> i = 1 \<Longrightarrow>
   startTx i s = Inr (s\<lparr>out := out s @ [DigitalWrite kRedLedPin HIGH],
       txBuf := Some (slotBase i), txLen := of_nat (trimTail (sig s) (slotBase i) 400),
       txHigh := False\<rparr>)"
  by (auto simp: startTx_def slotBase_def kSlotLen_def kSigCells_def emit_def Let_def)

lemma setState_WAIT_0:
  "state s \<noteq> STATE_WAIT_0 \<Longrightarrow>
   setState ms STATE_WAIT_0 s =
     Inr (s\<lparr>state := STATE_WAIT_0,
            out := out s @ [DigitalWrite LED_BUILTIN HIGH, DigitalWrite kRedLedPin LOW],
            waitStartMillis := ms, waitDelayMillis := kDelay1Millis\<rparr>)"
  by (auto simp: setState_def state_defs startWait_def emit_def Let_def)

lemma setState_WAIT_1:
  "state s \<noteq> STATE_WAIT_1 \<Longrightarrow>
   setState ms STATE_WAIT_1 s =
     Inr (s\<lparr>state := STATE_WAIT_1,
            out := out s @ [DigitalWrite LED_BUILTIN LOW, DigitalWrite kRedLedPin LOW],
            waitStartMillis := ms, waitDelayMillis := kCycleMillis - kDelay1Millis\<rparr>)"
  by (auto simp: setState_def state_defs startWait_def emit_def Let_def)

lemma setState_UNINITED:
  "state s \<noteq> STATE_UNINITED \<Longrightarrow>
   setState ms STATE_UNINITED s =
     Inr (s\<lparr>state := STATE_UNINITED,
            out := out s @ [DigitalWrite kRedLedPin LOW, DigitalWrite kGreenLedPin LOW]\<rparr>)"
  by (auto simp: setState_def state_defs emit_def Let_def)

lemma setState_INITED:
  "state s \<noteq> STATE_INITED \<Longrightarrow>
   setState ms STATE_INITED s =
     Inr (s\<lparr>state := STATE_INITED,
            out := out s @ [DigitalWrite kRedLedPin LOW, DigitalWrite kGreenLedPin HIGH]\<rparr>)"
  by (auto simp: setState_def state_defs emit_def Let_def)

lemma setState_LEARN_0:
  "state s \<noteq> STATE_LEARN_0 \<Longrightarrow>
   setState ms STATE_LEARN_0 s =
     Inr (s\<lparr>state := STATE_LEARN_0,
            out := out s @ [DigitalWrite kRedLedPin HIGH, DigitalWrite kGreenLedPin LOW],
            rxBuf := Some 0, rxSize := 400,
            sig := (\<lambda>a. if a < 400 then 0 else sig s a),
            startMicros := 0, prevRx := HIGH\<rparr>)"
  by (auto simp: setState_def state_defs emit_def Let_def startRx_ok slotBase_def kSlotLen_def cong: if_cong)

lemma setState_LEARN_1:
  "state s \<noteq> STATE_LEARN_1 \<Longrightarrow>
   setState ms STATE_LEARN_1 s =
     Inr (s\<lparr>state := STATE_LEARN_1,
            out := out s @ [DigitalWrite kRedLedPin HIGH, DigitalWrite kGreenLedPin HIGH],
            rxBuf := Some 400, rxSize := 400,
            sig := (\<lambda>a. if 400 \<le> a \<and> a < 800 then 0 else sig s a),
            startMicros := 0, prevRx := HIGH\<rparr>)"
  by (auto simp: setState_def state_defs emit_def Let_def startRx_ok slotBase_def kSlotLen_def cong: if_cong)

lemma setState_SEND_0:
  "state s \<noteq> STATE_SEND_0 \<Longrightarrow>
   setState ms STATE_SEND_0 s =
     Inr (s\<lparr>state := STATE_SEND_0,
            out := out s @ [DigitalWrite kRedLedPin HIGH],
            txBuf := Some 0, txLen := of_nat (trimTail (sig s) 0 400), txHigh := False\<rparr>)"
  by (auto simp: setState_def state_defs Let_def startTx_ok slotBase_def kSlotLen_def)

lemma setState_SEND_1:
  "state s \<noteq> STATE_SEND_1 \<Longrightarrow>
   setState ms STATE_SEND_1 s =
     Inr (s\<lparr>state := STATE_SEND_1,
            out := out s @ [DigitalWrite kRedLedPin HIGH],
            txBuf := Some 400, txLen := of_nat (trimTail (sig s) 400 400), txHigh := False\<rparr>)"
  by (auto simp: setState_def state_defs Let_def startTx_ok slotBase_def kSlotLen_def)

lemma setState_other:
  "n \<noteq> state s \<Longrightarrow> 7 < n \<Longrightarrow> setState ms n s = Inr (s\<lparr>state := n\<rparr>)"
  by (auto simp: setState_def state_defs Let_def)

lemma setState_total: "\<exists>s'. setState ms n s = Inr s' \<and> state s' = n"
proof (cases "n = state s")
  case True
  then show ?thesis by (simp add: setState_def)
next
  case False
  then have ne: "state s \<noteq> n" by simp
  consider "n = STATE_UNINITED" | "n = STATE_LEARN_0" | "n = STATE_LEARN_1" | "n = STATE_INITED"
    | "n = STATE_SEND_0" | "n = STATE_WAIT_0" | "n = STATE_SEND_1" | "n = STATE_WAIT_1"
    | "n \<noteq> STATE_UNINITED" "n \<noteq> STATE_LEARN_0" "n \<noteq> STATE_LEARN_1" "n \<noteq> STATE_INITED"
      "n \<noteq> STATE_SEND_0" "n \<noteq> STATE_WAIT_0" "n \<noteq> STATE_SEND_1" "n \<noteq> STATE_WAIT_1"
    by blast
  then show ?thesis
  proof cases
    case 1 with ne show ?thesis by (simp add: setState_UNINITED)
  next
    case 2 with ne show ?thesis by (simp add: setState_LEARN_0)
  next
    case 3 with ne show ?thesis by (simp add: setState_LEARN_1)
  next
    case 4 with ne show ?thesis by (simp add: setState_INITED)
  next
    case 5 with ne show ?thesis by (simp add: setState_SEND_0)
  next
    case 6 with ne show ?thesis by (simp add: setState_WAIT_0)
  next
    case 7 with ne show ?thesis by (simp add: setState_SEND_1)
  next
    case 8 with ne show ?thesis by (simp add: setState_WAIT_1)
  next
    case 9 with False show ?thesis by (simp add: setState_def Let_def)
  qed
qed

text \<open>
  C7. The constant expressions \<open>12ul * 60 * 60 * 1000\<close> and \<open>24ul * 60 * 60 * 1000\<close>
  stay below \<open>2 ^ 32\<close>, so \<open>kDelay1Millis\<close> is 43,200,000 and \<open>kCycleMillis\<close> is
  86,400,000; entering \<open>STATE_WAIT_0\<close> arms the wait timer for 43,200,000 ms and
  entering \<open>STATE_WAIT_1\<close> arms it for 86,400,000 - 43,200,000 = 43,200,000 ms.
\<close>

theorem wait_timer_armed:
  "unat (12 :: u32) * 60 * 60 * 1000 < 2 ^ 32 \<and>
   unat (24 :: u32) * 60 * 60 * 1000 < 2 ^ 32 \<and>
   unat kDelay1Millis = 12 * 60 * 60 * 1000 \<and>
   unat kCycleMillis = 24 * 60 * 60 * 1000 \<and>
   unat kDelay1Millis = 43200000 \<and>
   unat kCycleMillis = 86400000 \<and>
   (state s \<noteq> STATE_WAIT_0 \<longrightarrow>
      (\<exists>s'. setState ms STATE_WAIT_0 s = Inr s' \<and> state s' = STATE_WAIT_0 \<and>
         waitStartMillis s' = ms \<and> unat (waitDelayMillis s') = 43200000)) \<and>
   (state s \<noteq> STATE_WAIT_1 \<longrightarrow>
      (\<exists>s'. setState ms STATE_WAIT_1 s = Inr s' \<and> state s' = STATE_WAIT_1 \<and>
         waitStartMillis s' = ms \<and>
         unat (waitDelayMillis s') = 86400000 - 43200000 \<and>
         unat (waitDelayMillis s') = 43200000))"
  by (simp add: setState_WAIT_0 setState_WAIT_1 kDelay1Millis_def kCycleMillis_def)

theorem wait_timer_armed_witness:
  "state (setup_board powerOn) \<noteq> STATE_WAIT_0 \<and>
   state (setup_board powerOn) \<noteq> STATE_WAIT_1 \<and>
   map_sum id (\<lambda>s'. unat (waitDelayMillis s')) (setState 7 STATE_WAIT_0 (setup_board powerOn))
     = Inr 43200000 \<and>
   map_sum id (\<lambda>s'. unat (waitDelayMillis s')) (setState 7 STATE_WAIT_1 (setup_board powerOn))
     = Inr 43200000"
proof -
  have a: "state (setup_board powerOn) \<noteq> STATE_WAIT_0"
    and b: "state (setup_board powerOn) \<noteq> STATE_WAIT_1"
    by (simp_all add: setup_board_def powerOn_def state_defs)
  from wait_timer_armed [of "setup_board powerOn" 7] a b show ?thesis
    by auto
qed

text \<open>
  C8, as the code has it. \<open>setState\<close> with the current state returns the state
  unchanged (every field, and no output). With another value it stores the value
  and, when the value is one of the eight enumerators, runs the entry action of that
  enumerator, once; a value above \<open>STATE_WAIT_1\<close> has no case in the switch, and
  only \<open>state\<close> changes.
\<close>

theorem setState_entry_actions:
  "setState ms (state s) s = Inr s \<and>
   (n \<noteq> state s \<longrightarrow>
     (n = STATE_UNINITED \<longrightarrow> setState ms n s =
        Inr (s\<lparr>state := n,
               out := out s @ [DigitalWrite kRedLedPin LOW, DigitalWrite kGreenLedPin LOW]\<rparr>)) \<and>
     (n = STATE_LEARN_0 \<longrightarrow> setState ms n s =
        Inr (s\<lparr>state := n,
               out := out s @ [DigitalWrite kRedLedPin HIGH, DigitalWrite kGreenLedPin LOW],
               rxBuf := Some 0, rxSize := 400,
               sig := (\<lambda>a. if a < 400 then 0 else sig s a),
               startMicros := 0, prevRx := HIGH\<rparr>)) \<and>
     (n = STATE_LEARN_1 \<longrightarrow> setState ms n s =
        Inr (s\<lparr>state := n,
               out := out s @ [DigitalWrite kRedLedPin HIGH, DigitalWrite kGreenLedPin HIGH],
               rxBuf := Some 400, rxSize := 400,
               sig := (\<lambda>a. if 400 \<le> a \<and> a < 800 then 0 else sig s a),
               startMicros := 0, prevRx := HIGH\<rparr>)) \<and>
     (n = STATE_INITED \<longrightarrow> setState ms n s =
        Inr (s\<lparr>state := n,
               out := out s @ [DigitalWrite kRedLedPin LOW, DigitalWrite kGreenLedPin HIGH]\<rparr>)) \<and>
     (n = STATE_SEND_0 \<longrightarrow> setState ms n s =
        Inr (s\<lparr>state := n, out := out s @ [DigitalWrite kRedLedPin HIGH],
               txBuf := Some 0, txLen := of_nat (trimTail (sig s) 0 400), txHigh := False\<rparr>)) \<and>
     (n = STATE_WAIT_0 \<longrightarrow> setState ms n s =
        Inr (s\<lparr>state := n,
               out := out s @ [DigitalWrite LED_BUILTIN HIGH, DigitalWrite kRedLedPin LOW],
               waitStartMillis := ms, waitDelayMillis := kDelay1Millis\<rparr>)) \<and>
     (n = STATE_SEND_1 \<longrightarrow> setState ms n s =
        Inr (s\<lparr>state := n, out := out s @ [DigitalWrite kRedLedPin HIGH],
               txBuf := Some 400, txLen := of_nat (trimTail (sig s) 400 400),
               txHigh := False\<rparr>)) \<and>
     (n = STATE_WAIT_1 \<longrightarrow> setState ms n s =
        Inr (s\<lparr>state := n,
               out := out s @ [DigitalWrite LED_BUILTIN LOW, DigitalWrite kRedLedPin LOW],
               waitStartMillis := ms, waitDelayMillis := kCycleMillis - kDelay1Millis\<rparr>)) \<and>
     (STATE_WAIT_1 < n \<longrightarrow> setState ms n s = Inr (s\<lparr>state := n\<rparr>)))"
proof -
  have same: "setState ms (state s) s = Inr s"
    by (simp add: setState_def)
  have other: "setState ms n s = Inr (s\<lparr>state := n\<rparr>)" if "n \<noteq> state s" "STATE_WAIT_1 < n"
    using that by (simp add: setState_other STATE_WAIT_1_def)
  show ?thesis
    using same other
    by (simp add: setState_UNINITED setState_LEARN_0 setState_LEARN_1 setState_INITED
        setState_SEND_0 setState_WAIT_0 setState_SEND_1 setState_WAIT_1 neq_commute)
qed

theorem setState_entry_actions_witness:
  "STATE_WAIT_0 \<noteq> state (setup_board powerOn) \<and>
   setState 7 STATE_WAIT_0 (setup_board powerOn) =
     Inr ((setup_board powerOn)\<lparr>state := STATE_WAIT_0,
        out := out (setup_board powerOn) @
          [DigitalWrite LED_BUILTIN HIGH, DigitalWrite kRedLedPin LOW],
        waitStartMillis := 7, waitDelayMillis := kDelay1Millis\<rparr>)"
proof -
  have a: "STATE_WAIT_0 \<noteq> state (setup_board powerOn)"
    by (simp add: setup_board_def powerOn_def state_defs)
  from setState_entry_actions [of 7 "setup_board powerOn" STATE_WAIT_0] a show ?thesis
    by simp
qed

text \<open>
  C8 as stated fails for a value that is no enumerator: \<open>loopWait\<close> in
  \<open>STATE_WAIT_1\<close> calls \<open>setState(state + 1)\<close>, that is \<open>setState(8)\<close>, which differs
  from the current state and runs no entry action at all: no output, no cursor and
  no timer changes.
\<close>

theorem setState_entry_actions_counterexample:
  "STATE_WAIT_1 + 1 = (8 :: u8) \<and>
   (8 :: u8) \<noteq> state (powerOn\<lparr>state := STATE_WAIT_1\<rparr>) \<and>
   setState 0 8 (powerOn\<lparr>state := STATE_WAIT_1\<rparr>) = Inr (powerOn\<lparr>state := 8\<rparr>)"
  by (simp add: setState_def state_defs powerOn_def)

text \<open>
  C9. For a slot index 0 or 1, \<open>startRx\<close> returns (the \<open>memset\<close> stays inside
  \<open>sig\<close>), every one of the 400 cells of the slot is zero afterwards, every cell
  outside the slot keeps its value, and the only other variables written are
  \<open>rxBuf\<close>, \<open>rxSize\<close>, \<open>startMicros\<close> and \<open>prevRx\<close>.
\<close>

theorem startRx_zeroes_slot:
  "i = 0 \<or> i = 1 \<Longrightarrow>
   \<exists>s'. startRx i s = Inr s' \<and>
     (\<forall>j < 400. sig s' (400 * unat i + j) = 0) \<and>
     (\<forall>a. a < 400 * unat i \<or> 400 * unat i + 400 \<le> a \<longrightarrow> sig s' a = sig s a) \<and>
     s' = s\<lparr>rxBuf := Some (400 * unat i), rxSize := 400, sig := sig s',
            startMicros := 0, prevRx := HIGH\<rparr>"
  by (auto simp: startRx_ok slotBase_def kSlotLen_def)

theorem startRx_zeroes_slot_witness:
  "map_sum id (\<lambda>s'. (sig s' 399, sig s' 400, sig s' 799, sig s' 800))
     (startRx 1 (powerOn\<lparr>sig := (\<lambda>a. 5)\<rparr>)) = Inr (5, 0, 0, 5)"
proof -
  from startRx_zeroes_slot [of 1 "powerOn\<lparr>sig := (\<lambda>a. 5)\<rparr>"]
  obtain s' where r: "startRx 1 (powerOn\<lparr>sig := (\<lambda>a. 5)\<rparr>) = Inr s'"
    and z: "\<forall>j < 400. sig s' (400 + j) = 0"
    and k: "\<forall>a. a < 400 \<or> 800 \<le> a \<longrightarrow> sig s' a = 5"
    by auto
  from z [rule_format, of 0] z [rule_format, of 399]
  have "sig s' 400 = 0" and "sig s' 799 = 0"
    by simp_all
  moreover from k have "sig s' 399 = 5" and "sig s' 800 = 5"
    by simp_all
  ultimately show ?thesis
    using r by simp
qed

text \<open>
  The byte count of the \<open>memset\<close> fits the slot only because a pointer has the size of
  a cell on the ATmega328. With four-byte pointers \<open>startRx(0)\<close> would clear slot 1 as
  well, and \<open>startRx(1)\<close> would write past the end of \<open>sig\<close>.
\<close>

lemma startRx_on_wide_pointer:
  "map_sum id (\<lambda>s'. sig s' 400) (startRx_on 4 0 (powerOn\<lparr>sig := (\<lambda>a. 5)\<rparr>)) = Inr 0"
  "startRx_on 4 1 s = Inl OutOfBounds"
  by (simp_all add: startRx_on_def slotBase_def kSlotLen_def kSigCells_def sizeof_u16_def
      memset0_def Let_def)

section \<open>Properties: playback\<close>

lemma trimTail_le: "trimTail m p n \<le> n"
  by (induction n) auto

lemma trimTail_tail_zero: "trimTail m p n \<le> j \<Longrightarrow> j < n \<Longrightarrow> m (p + j) = 0"
proof (induction n)
  case 0
  then show ?case by simp
next
  case (Suc n)
  show ?case
  proof (cases "m (p + n) = 0")
    case True
    with Suc show ?thesis by (cases "j = n") auto
  next
    case False
    with Suc.prems show ?thesis by simp
  qed
qed

lemma trimTail_last: "0 < trimTail m p n \<Longrightarrow> m (p + (trimTail m p n - 1)) \<noteq> 0"
  by (induction n) (auto split: if_splits)

lemma trimTail_unique:
  "k \<le> n \<Longrightarrow> (\<forall>j. k \<le> j \<and> j < n \<longrightarrow> m (p + j) = 0) \<Longrightarrow>
   (0 < k \<longrightarrow> m (p + (k - 1)) \<noteq> 0) \<Longrightarrow> trimTail m p n = k"
proof (induction n)
  case 0
  then show ?case by simp
next
  case (Suc n)
  show ?case
  proof (cases "k = Suc n")
    case True
    with Suc.prems show ?thesis by simp
  next
    case False
    with Suc.prems have "k \<le> n" and "m (p + n) = 0" by simp_all
    with Suc show ?thesis by simp
  qed
qed

lemma trimTail_zero: "(\<forall>j < n. m (p + j) = 0) \<Longrightarrow> trimTail m p n = 0"
  by (rule trimTail_unique) simp_all

lemma playbackTrace_zero: "(\<forall>j < k. m (p + j) = 0) \<Longrightarrow> playbackTrace m p k = []"
  by (induction k) (simp_all add: txSegment_def)

lemma pollsTx_append:
  "pollsTx (xs @ ys) s = (case pollsTx xs s of Inl e \<Rightarrow> Inl e | Inr s1 \<Rightarrow> pollsTx ys s1)"
  by (induction xs arbitrary: s) (auto split: sum.splits)

lemma loopTx_more:
  "txBuf s = Some p \<Longrightarrow> p < 800 \<Longrightarrow> txLen s \<noteq> 1 \<Longrightarrow>
   loopTx ms s = Inr (s\<lparr>out := out s @ txSegment (txHigh s) (sig s p),
     txBuf := Some (p + 1), txLen := txLen s - 1, txHigh := \<not> txHigh s\<rparr>)"
  by (cases s) (simp add: loopTx_def kSigCells_def kSlotLen_def txDrive_def emit_def txSegment_def Let_def)

lemma loopTx_last:
  "txBuf s = Some p \<Longrightarrow> p < 800 \<Longrightarrow> txLen s = 1 \<Longrightarrow>
   loopTx ms s = setState ms (state s + 1)
     (s\<lparr>out := out s @ txSegment (txHigh s) (sig s p) @ [NoTone kTxPin],
        txBuf := None, txLen := 0, txHigh := \<not> txHigh s\<rparr>)"
  by (cases s) (simp add: loopTx_def kSigCells_def kSlotLen_def txDrive_def emit_def txSegment_def Let_def)

lemma pollsTx_run:
  "txBuf s = Some p \<Longrightarrow> txHigh s = False \<Longrightarrow> p + k \<le> 800 \<Longrightarrow>
   \<forall>j < k. (of_nat (Suc j) :: u16) \<noteq> txLen s \<Longrightarrow> length mss = k \<Longrightarrow>
   pollsTx mss s = Inr (s\<lparr>out := out s @ playbackTrace (sig s) p k,
     txBuf := Some (p + k), txLen := txLen s - of_nat k, txHigh := odd k\<rparr>)"
proof (induction mss arbitrary: k rule: rev_induct)
  case Nil
  then show ?case by simp
next
  case (snoc ms mss)
  from snoc.prems obtain k' where k: "k = Suc k'" and len: "length mss = k'"
    by (cases k) auto
  let ?sk = "s\<lparr>out := out s @ playbackTrace (sig s) p k',
     txBuf := Some (p + k'), txLen := txLen s - of_nat k', txHigh := odd k'\<rparr>"
  have run: "pollsTx mss s = Inr ?sk"
    using snoc.prems k len by (intro snoc.IH) auto
  have ne: "txLen ?sk \<noteq> 1"
    using snoc.prems(4) k by (auto simp: diff_eq_eq add.commute)
  have "loopTx ms ?sk = Inr (?sk\<lparr>out := out ?sk @ txSegment (txHigh ?sk) (sig ?sk (p + k')),
     txBuf := Some (p + k' + 1), txLen := txLen ?sk - 1, txHigh := \<not> txHigh ?sk\<rparr>)"
    using snoc.prems(3) k by (intro loopTx_more ne) simp_all
  then show ?case
    by (simp add: pollsTx_append run k diff_diff_eq add.commute)
qed

lemma of_nat_u16_eq:
  "a < 65536 \<Longrightarrow> b < 65536 \<Longrightarrow> ((of_nat a :: u16) = of_nat b) = (a = b)"
  by (simp add: word_of_nat_eq_iff take_bit_nat_eq_self)

lemma slotBase_simps: "slotBase 0 = 0" "slotBase 1 = 400"
  by (simp_all add: slotBase_def kSlotLen_def)

lemma carrierLevels_segment:
  "carrierLevels lvl (as @ txSegment h d) = carrierLevels lvl as @ replicate (unat d) h"
proof (induction as arbitrary: lvl)
  case Nil
  show ?case by (simp add: txSegment_def)
next
  case (Cons a as)
  then show ?case by (cases a) simp_all
qed

lemma carrierLevels_playbackTrace:
  "carrierLevels lvl (playbackTrace m p k) = storedWave m p k"
  by (induction k) (simp_all add: carrierLevels_segment)

text \<open>
  C1. Playback of slot \<open>i\<close>, entered as \<open>setState\<close> enters it (\<open>state\<close> already the
  sending state of the slot). \<open>N\<close> is the length of the slot without its trailing
  zeros: at most 400, every later entry zero, entry \<open>N - 1\<close> not zero. For \<open>k < N\<close>,
  \<open>startTx\<close> and \<open>k\<close> polls of \<open>loopTx\<close> return, having made exactly the carrier calls
  the specification expects for entries \<open>0 .. k - 1\<close>, with the cursor on entry \<open>k\<close> and
  the polarity flag on for odd \<open>k\<close>, off for even \<open>k\<close>; poll \<open>k\<close> then drives entry \<open>k\<close>
  with that polarity for \<open>sig[i][k]\<close> microseconds, and the poll of the last entry
  also stops the carrier and enters the wait state. Read as carrier levels over time,
  the calls of the first \<open>k\<close> polls are the first \<open>k\<close> stored entries, and the calls
  of poll \<open>k\<close> hold the carrier on (odd \<open>k\<close>) or off (even \<open>k\<close>) for exactly
  \<open>sig[i][k]\<close> microseconds; an entry of zero takes no time and makes no call.
\<close>

theorem playback_replays_slot:
  assumes "(i = 0 \<and> state s = STATE_SEND_0) \<or> (i = 1 \<and> state s = STATE_SEND_1)"
    and "N = trimTail (sig s) (slotBase i) 400"
    and "k < N"
    and "length mss = k"
  shows "\<exists>s0 sk s'. startTx i s = Inr s0 \<and> pollsTx mss s0 = Inr sk \<and> loopTx ms sk = Inr s' \<and>
    N \<le> 400 \<and> (\<forall>j. N \<le> j \<and> j < 400 \<longrightarrow> sig s (slotBase i + j) = 0) \<and>
    sig s (slotBase i + (N - 1)) \<noteq> 0 \<and>
    txBuf sk = Some (slotBase i + k) \<and> txHigh sk = odd k \<and>
    state sk = state s \<and> sig sk = sig s \<and>
    out sk = out s0 @ playbackTrace (sig s) (slotBase i) k \<and>
    out s' = out sk @ txSegment (odd k) (sig s (slotBase i + k)) @
      (if Suc k = N
       then [NoTone kTxPin, DigitalWrite LED_BUILTIN (if i = 0 then HIGH else LOW),
             DigitalWrite kRedLedPin LOW]
       else []) \<and>
    state s' = (if Suc k = N then state s + 1 else state s) \<and>
    sig s' = sig s \<and>
    carrierLevels lvl (playbackTrace (sig s) (slotBase i) k) = storedWave (sig s) (slotBase i) k \<and>
    carrierLevels lvl (txSegment (odd k) (sig s (slotBase i + k)))
      = replicate (unat (sig s (slotBase i + k))) (odd k)"
proof -
  let ?p = "slotBase i"
  have wave: "carrierLevels lvl (playbackTrace (sig s) ?p k) = storedWave (sig s) ?p k"
    by (rule carrierLevels_playbackTrace)
  have seg: "carrierLevels lvl (txSegment (odd k) (sig s (?p + k)))
      = replicate (unat (sig s (?p + k))) (odd k)"
    using carrierLevels_segment [of lvl "[]" "odd k" "sig s (?p + k)"] by simp
  let ?s0 = "s\<lparr>out := out s @ [DigitalWrite kRedLedPin HIGH],
       txBuf := Some ?p, txLen := of_nat (trimTail (sig s) ?p 400), txHigh := False\<rparr>"
  let ?sk = "?s0\<lparr>out := out ?s0 @ playbackTrace (sig ?s0) ?p k,
     txBuf := Some (?p + k), txLen := txLen ?s0 - of_nat k, txHigh := odd k\<rparr>"
  from assms(1) have i: "i = 0 \<or> i = 1" by auto
  then have p: "?p = 0 \<or> ?p = 400" by (auto simp: slotBase_simps)
  have N400: "N \<le> 400" unfolding assms(2) by (rule trimTail_le)
  have tail: "\<forall>j. N \<le> j \<and> j < 400 \<longrightarrow> sig s (?p + j) = 0"
    unfolding assms(2) by (auto intro: trimTail_tail_zero)
  have lastnz: "sig s (?p + (N - 1)) \<noteq> 0"
    using assms(3) unfolding assms(2) by (intro trimTail_last) simp
  have start: "startTx i s = Inr ?s0"
    using i by (rule startTx_ok)
  have ne: "\<forall>j < k. (of_nat (Suc j) :: u16) \<noteq> txLen ?s0"
  proof (intro allI impI)
    fix j
    assume "j < k"
    with assms(3) N400 have "Suc j \<noteq> N" and "Suc j < 65536" and "N < 65536"
      by simp_all
    then have "(of_nat (Suc j) :: u16) \<noteq> of_nat N"
      using of_nat_u16_eq [of "Suc j" N] by blast
    then show "(of_nat (Suc j) :: u16) \<noteq> txLen ?s0"
      by (simp del: of_nat_Suc add: assms(2) [symmetric])
  qed
  have run: "pollsTx mss ?s0 = Inr ?sk"
    using p assms(3,4) N400 ne by (intro pollsTx_run) auto
  have len: "txLen ?sk = of_nat (N - k)"
    using assms(3) by (simp add: assms(2) [symmetric])
  have bound: "?p + k < 800"
    using p assms(3) N400 by auto
  show ?thesis
  proof (cases "Suc k = N")
    case True
    then have "N - k = 1" by arith
    then have "(of_nat (N - k) :: u16) = 1" by simp
    with len have one: "txLen ?sk = 1" by (rule trans)
    have "loopTx ms ?sk = setState ms (state ?sk + 1)
       (?sk\<lparr>out := out ?sk @ txSegment (txHigh ?sk) (sig ?sk (?p + k)) @ [NoTone kTxPin],
          txBuf := None, txLen := 0, txHigh := \<not> txHigh ?sk\<rparr>)"
      using bound one by (intro loopTx_last) simp_all
    with assms(1) start run N400 tail lastnz True wave seg show ?thesis
      by (auto simp: state_defs setState_WAIT_0 [unfolded state_defs]
          setState_WAIT_1 [unfolded state_defs] slotBase_simps)
  next
    case False
    with assms(3) have "N - k \<noteq> 1" by arith
    then have "txLen ?sk \<noteq> 1"
      using len N400 of_nat_u16_eq [of "N - k" 1] by simp
    then have "loopTx ms ?sk = Inr (?sk\<lparr>out := out ?sk @ txSegment (txHigh ?sk) (sig ?sk (?p + k)),
       txBuf := Some (?p + k + 1), txLen := txLen ?sk - 1, txHigh := \<not> txHigh ?sk\<rparr>)"
      using bound by (intro loopTx_more) simp_all
    with start run N400 tail lastnz False wave seg show ?thesis
      by simp
  qed
qed

theorem playback_replays_slot_witness:
  "state (powerOn\<lparr>state := STATE_SEND_0, sig := (\<lambda>_. 0)(0 := 500, 1 := 300)\<rparr>) = STATE_SEND_0 \<and>
   trimTail (sig (powerOn\<lparr>state := STATE_SEND_0, sig := (\<lambda>_. 0)(0 := 500, 1 := 300)\<rparr>))
     (slotBase 0) 400 = 2 \<and>
   (\<exists>s0 sk s'.
      startTx 0 (powerOn\<lparr>state := STATE_SEND_0, sig := (\<lambda>_. 0)(0 := 500, 1 := 300)\<rparr>) = Inr s0 \<and>
      pollsTx [7] s0 = Inr sk \<and> loopTx 9 sk = Inr s' \<and>
      txBuf sk = Some 1 \<and> txHigh sk \<and>
      out sk = out s0 @ [NoTone kTxPin, DelayMicroseconds 500] \<and>
      out s' = out sk @ [Tone kTxPin kCarrierFreq, DelayMicroseconds 300, NoTone kTxPin,
        DigitalWrite LED_BUILTIN HIGH, DigitalWrite kRedLedPin LOW] \<and>
      state s' = STATE_WAIT_0)"
proof -
  let ?s = "powerOn\<lparr>state := STATE_SEND_0, sig := (\<lambda>_. 0)(0 := 500, 1 := 300)\<rparr>"
  have st: "state ?s = STATE_SEND_0" by simp
  have N: "trimTail (sig ?s) (slotBase 0) 400 = 2"
    by (rule trimTail_unique) (simp_all add: slotBase_simps)
  have tr: "playbackTrace (sig ?s) (slotBase 0) 1 = [NoTone kTxPin, DelayMicroseconds 500]"
    by (simp add: slotBase_simps txSegment_def)
  from playback_replays_slot [of 0 ?s 2 1 "[7]" 9] st N tr show ?thesis
    by (auto simp: slotBase_simps txSegment_def state_defs)
qed

text \<open>
  C10. On a slot whose 400 entries are all zero \<open>startTx\<close> trims \<open>txLen\<close> to 0. The
  first \<open>loopTx\<close> poll then makes no carrier call, moves the cursor on and wraps
  \<open>txLen\<close> to 65,535 without leaving the sending state, and 400 polls take the cursor
  past the end of the slot in the same way. Whenever the first poll does leave the
  sending state, the slot holds a non-zero entry.
\<close>

theorem empty_slot_playback_wraps:
  assumes "i = 0 \<or> i = 1"
  shows "\<exists>s0 s1. startTx i s = Inr s0 \<and> loopTx ms s0 = Inr s1 \<and>
    ((\<forall>j < 400. sig s (slotBase i + j) = 0) \<longrightarrow>
       txLen s0 = 0 \<and> txLen s1 = 65535 \<and> txBuf s1 = Some (slotBase i + 1) \<and>
       state s1 = state s \<and> out s1 = out s0 \<and>
       (\<forall>mss. length mss = 400 \<longrightarrow>
          (\<exists>sn. pollsTx mss s0 = Inr sn \<and> txBuf sn = Some (slotBase i + 400) \<and>
             txLen sn = 65136 \<and> state sn = state s \<and> out sn = out s0))) \<and>
    (state s1 \<noteq> state s \<longrightarrow> (\<exists>j < 400. sig s (slotBase i + j) \<noteq> 0))"
proof -
  let ?p = "slotBase i"
  let ?N = "trimTail (sig s) ?p 400"
  let ?s0 = "s\<lparr>out := out s @ [DigitalWrite kRedLedPin HIGH],
       txBuf := Some ?p, txLen := of_nat ?N, txHigh := False\<rparr>"
  from assms have p: "?p = 0 \<or> ?p = 400" by (auto simp: slotBase_simps)
  then have bound: "?p < 800" by auto
  have start: "startTx i s = Inr ?s0"
    using assms by (rule startTx_ok)
  have N400: "?N \<le> 400" by (rule trimTail_le)
  have first: "\<exists>s1. loopTx ms ?s0 = Inr s1 \<and> (state s1 \<noteq> state s \<longrightarrow> ?N = 1)"
  proof (cases "?N = 1")
    case True
    have "loopTx ms ?s0 = setState ms (state ?s0 + 1)
       (?s0\<lparr>out := out ?s0 @ txSegment (txHigh ?s0) (sig ?s0 ?p) @ [NoTone kTxPin],
          txBuf := None, txLen := 0, txHigh := \<not> txHigh ?s0\<rparr>)"
      using bound True by (intro loopTx_last) simp_all
    with True setState_total show ?thesis by metis
  next
    case False
    then have "txLen ?s0 \<noteq> 1"
      using N400 of_nat_u16_eq [of ?N 1] by simp
    then have "loopTx ms ?s0 = Inr (?s0\<lparr>out := out ?s0 @ txSegment (txHigh ?s0) (sig ?s0 ?p),
       txBuf := Some (?p + 1), txLen := txLen ?s0 - 1, txHigh := \<not> txHigh ?s0\<rparr>)"
      using bound by (intro loopTx_more) simp_all
    then show ?thesis by simp
  qed
  then obtain s1 where s1: "loopTx ms ?s0 = Inr s1" and adv: "state s1 \<noteq> state s \<longrightarrow> ?N = 1"
    by blast
  have nz: "\<exists>j < 400. sig s (?p + j) \<noteq> 0" if "?N = 1"
  proof -
    from that have "sig s (?p + (?N - 1)) \<noteq> 0" by (intro trimTail_last) simp
    with that show ?thesis by (intro exI [of _ 0]) simp
  qed
  have empty: "txLen ?s0 = 0 \<and> txLen s1 = 65535 \<and> txBuf s1 = Some (?p + 1) \<and>
       state s1 = state s \<and> out s1 = out ?s0 \<and>
       (\<forall>mss. length mss = 400 \<longrightarrow>
          (\<exists>sn. pollsTx mss ?s0 = Inr sn \<and> txBuf sn = Some (?p + 400) \<and>
             txLen sn = 65136 \<and> state sn = state s \<and> out sn = out ?s0))"
    if z: "\<forall>j < 400. sig s (?p + j) = 0"
  proof -
    from z have N0: "?N = 0" by (rule trimTail_zero)
    have ne: "\<forall>j < 400. (of_nat (Suc j) :: u16) \<noteq> txLen ?s0"
    proof (intro allI impI)
      fix j :: nat
      assume "j < 400"
      then have "(of_nat (Suc j) :: u16) \<noteq> of_nat 0"
        using of_nat_u16_eq [of "Suc j" 0] by simp
      then show "(of_nat (Suc j) :: u16) \<noteq> txLen ?s0"
        by (simp del: of_nat_Suc add: N0)
    qed
    have "loopTx ms ?s0 = Inr (?s0\<lparr>out := out ?s0 @ txSegment (txHigh ?s0) (sig ?s0 ?p),
       txBuf := Some (?p + 1), txLen := txLen ?s0 - 1, txHigh := \<not> txHigh ?s0\<rparr>)"
      using bound N0 by (intro loopTx_more) simp_all
    with s1 z [rule_format, of 0] N0
    have one: "txLen s1 = 65535 \<and> txBuf s1 = Some (?p + 1) \<and> state s1 = state s \<and>
        out s1 = out ?s0"
      by (auto simp: txSegment_def)
    have many: "\<exists>sn. pollsTx mss ?s0 = Inr sn \<and> txBuf sn = Some (?p + 400) \<and>
             txLen sn = 65136 \<and> state sn = state s \<and> out sn = out ?s0"
      if "length mss = 400" for mss
    proof -
      have "pollsTx mss ?s0 = Inr (?s0\<lparr>out := out ?s0 @ playbackTrace (sig ?s0) ?p 400,
         txBuf := Some (?p + 400), txLen := txLen ?s0 - of_nat 400, txHigh := odd (400 :: nat)\<rparr>)"
        using p ne that by (intro pollsTx_run) auto
      moreover have "playbackTrace (sig ?s0) ?p 400 = []"
        using z by (intro playbackTrace_zero) simp
      ultimately show ?thesis by (simp add: N0)
    qed
    from one many N0 show ?thesis by simp
  qed
  from start s1 adv nz empty show ?thesis
    by (intro exI [of _ ?s0] exI [of _ s1]) blast
qed

theorem empty_slot_playback_wraps_witness:
  "sig (powerOn\<lparr>state := STATE_SEND_0\<rparr>) = (\<lambda>_. 0) \<and>
   map_sum id (\<lambda>s0. (txLen s0, map_sum id (\<lambda>s1. (txLen s1, txBuf s1, state s1, out s1)) (loopTx 0 s0)))
     (startTx 0 (powerOn\<lparr>state := STATE_SEND_0\<rparr>))
   = Inr (0, Inr (65535, Some 1, STATE_SEND_0, [DigitalWrite kRedLedPin HIGH]))"
proof -
  let ?s = "powerOn\<lparr>state := STATE_SEND_0\<rparr>"
  have z: "\<forall>j < 400. sig ?s (slotBase 0 + j) = 0"
    by (simp add: powerOn_def)
  from empty_slot_playback_wraps [of 0 ?s 0] z
  obtain s0 s1 where "startTx 0 ?s = Inr s0" and "loopTx 0 s0 = Inr s1"
    and "txLen s0 = 0" and "txLen s1 = 65535" and "txBuf s1 = Some (slotBase 0 + 1)"
    and "state s1 = state ?s" and "out s1 = out s0"
    by blast
  moreover have "startTx 0 ?s = Inr s0 \<Longrightarrow> out s0 = [DigitalWrite kRedLedPin HIGH]"
    by (auto simp: startTx_ok powerOn_def)
  moreover have "sig ?s = (\<lambda>_. 0)"
    by (simp add: powerOn_def)
  ultimately show ?thesis
    by (simp add: slotBase_simps)
qed

section \<open>Properties: capture\<close>

lemma setState_state: "setState ms n s = Inr s' \<Longrightarrow> state s' = n"
  using setState_total [of ms n s] by auto

lemma learn_distinct: "STATE_LEARN_1 \<noteq> STATE_LEARN_0"
  by (simp add: state_defs)

lemma setState_fresh_cursor:
  assumes "setState ms n s = Inr s'" and "n \<noteq> state s" and "learning s'"
  shows "rxCursorOk s'"
proof -
  from assms(1) have "state s' = n" by (rule setState_state)
  with assms(3) have "n = STATE_LEARN_0 \<or> n = STATE_LEARN_1"
    by (simp add: learning_def)
  then show ?thesis
  proof
    assume n: "n = STATE_LEARN_0"
    with assms(1,2) show ?thesis
      by (auto simp: setState_LEARN_0 rxCursorOk_def rxBase_def slotBase_simps kSlotLen_def)
  next
    assume n: "n = STATE_LEARN_1"
    with assms(1,2) show ?thesis
      by (auto simp: setState_LEARN_1 rxCursorOk_def rxBase_def slotBase_simps kSlotLen_def
          learn_distinct)
  qed
qed

text \<open>What a \<open>loopRx\<close> poll does, case by case, when the cursor is in its slot.\<close>

lemma loopRx_timeout:
  "startMicros s \<noteq> 0 \<Longrightarrow> kRxTimeoutMicros \<le> now - startMicros s \<Longrightarrow>
   loopRx rx now ms s = setState ms (state s + 1) s"
  by (simp add: loopRx_def)

lemma loopRx_idle:
  "startMicros s = 0 \<or> now - startMicros s < kRxTimeoutMicros \<Longrightarrow> rx = prevRx s \<Longrightarrow>
   loopRx rx now ms s = Inr s"
  by (auto simp: loopRx_def)

lemma loopRx_store:
  "startMicros s = 0 \<or> now - startMicros s < kRxTimeoutMicros \<Longrightarrow> rx \<noteq> prevRx s \<Longrightarrow>
   rxBuf s = Some p \<Longrightarrow> p < 800 \<Longrightarrow> rxSize s \<noteq> 1 \<Longrightarrow>
   loopRx rx now ms s =
     Inr (s\<lparr>sig := (sig s)(p := ucast (now - startMicros s)), rxBuf := Some (p + 1),
            rxSize := rxSize s - 1, prevRx := rx, startMicros := now\<rparr>)"
  by (cases s) (auto simp: loopRx_def kSigCells_def kSlotLen_def Let_def)

lemma loopRx_overflow:
  "startMicros s = 0 \<or> now - startMicros s < kRxTimeoutMicros \<Longrightarrow> rx \<noteq> prevRx s \<Longrightarrow>
   rxBuf s = Some p \<Longrightarrow> p < 800 \<Longrightarrow> rxSize s = 1 \<Longrightarrow> state s \<noteq> STATE_UNINITED \<Longrightarrow>
   loopRx rx now ms s =
     Inr (s\<lparr>state := STATE_UNINITED, sig := (sig s)(p := ucast (now - startMicros s)),
            rxBuf := Some (p + 1), rxSize := 0, prevRx := rx, startMicros := now,
            out := out s @ [DigitalWrite kRedLedPin LOW, DigitalWrite kGreenLedPin LOW]\<rparr>)"
  by (cases s) (auto simp: loopRx_def kSigCells_def kSlotLen_def Let_def setState_UNINITED)

lemma rxCursorOk_D:
  assumes "rxCursorOk s" and "learning s"
  obtains p where "rxBuf s = Some p" and "rxBase s \<le> p" and "p < rxBase s + 400"
    and "unat (rxSize s) = rxBase s + 400 - p" and "p = rxBase s \<longrightarrow> startMicros s = 0"
    and "p < 800" and "rxSize s = 1 \<longleftrightarrow> p = rxBase s + 399"
proof -
  from assms(1) obtain p where p: "rxBuf s = Some p" "rxBase s \<le> p" "p < rxBase s + 400"
    "unat (rxSize s) = rxBase s + 400 - p" "p = rxBase s \<longrightarrow> startMicros s = 0"
    by (auto simp: rxCursorOk_def kSlotLen_def split: option.splits)
  have "rxBase s = 0 \<or> rxBase s = 400"
    by (simp add: rxBase_def slotBase_simps)
  with p(3) have b: "p < 800" by auto
  have "rxSize s = 1 \<longleftrightarrow> unat (rxSize s) = 1"
    by (simp add: word_unat_eq_iff)
  with p(2,3,4) have "rxSize s = 1 \<longleftrightarrow> p = rxBase s + 399" by auto
  with p b show thesis by (rule that)
qed

lemma loopRx_preserves_cursor:
  assumes "loopRx rx now ms s = Inr s'" and "learning s" and "rxCursorOk s" and "learning s'"
  shows "rxCursorOk s'"
proof -
  from assms(3,2) obtain p where p: "rxBuf s = Some p" "rxBase s \<le> p" "p < rxBase s + 400"
    "unat (rxSize s) = rxBase s + 400 - p" "p < 800" "rxSize s = 1 \<longleftrightarrow> p = rxBase s + 399"
    by (rule rxCursorOk_D)
  from assms(2) have nu: "state s \<noteq> STATE_UNINITED"
    by (auto simp: learning_def state_defs)
  consider (timeout) "startMicros s \<noteq> 0 \<and> kRxTimeoutMicros \<le> now - startMicros s"
    | (idle) "startMicros s = 0 \<or> now - startMicros s < kRxTimeoutMicros" "rx = prevRx s"
    | (store) "startMicros s = 0 \<or> now - startMicros s < kRxTimeoutMicros" "rx \<noteq> prevRx s"
        "rxSize s \<noteq> 1"
    | (overflow) "startMicros s = 0 \<or> now - startMicros s < kRxTimeoutMicros"
        "rx \<noteq> prevRx s" "rxSize s = 1"
    using not_le by blast
  then show ?thesis
  proof cases
    case timeout
    then have "setState ms (state s + 1) s = Inr s'"
      using assms(1) by (simp add: loopRx_timeout)
    moreover have "state s + 1 \<noteq> state s" by simp
    ultimately show ?thesis
      using assms(4) by (rule setState_fresh_cursor)
  next
    case idle
    then show ?thesis using assms(1,3) by (simp add: loopRx_idle)
  next
    case store
    from store(3) p(6) have lt: "p + 1 < rxBase s + 400" using p(3) by auto
    from p(4) p(3) have "rxSize s \<noteq> 0" by auto
    then have "unat (rxSize s - 1) = unat (rxSize s) - 1"
      by (rule unat_minus_one)
    with loopRx_store [OF store(1,2) p(1) p(5) store(3), of ms] assms(1) p lt show ?thesis
      by (auto simp: rxCursorOk_def rxBase_def kSlotLen_def)
  next
    case overflow
    with loopRx_overflow [OF overflow(1,2) p(1) p(5) overflow(3) nu, of ms] assms(1,4)
    show ?thesis by (auto simp: learning_def state_defs)
  qed
qed

lemma loop_preserves_cursor:
  assumes "loop inp s = Inr s'" and "learning s \<longrightarrow> rxCursorOk s" and "learning s'"
  shows "rxCursorOk s'"
proof (cases "learning s")
  case True
  then have "loop inp s = loopRx (rxPin inp) (microsNow inp) (millisNow inp) s"
    by (auto simp: loop_def learning_def state_defs)
  with assms True show ?thesis
    by (auto intro: loopRx_preserves_cursor)
next
  case False
  then have nl: "state s \<noteq> STATE_LEARN_0" "state s \<noteq> STATE_LEARN_1"
    by (simp_all add: learning_def)
  consider (uninit) "state s = STATE_UNINITED" | (inited) "state s = STATE_INITED"
    | (send) "state s = STATE_SEND_0 \<or> state s = STATE_SEND_1"
    | (wait) "state s = STATE_WAIT_0 \<or> state s = STATE_WAIT_1"
    | (other) "state s \<noteq> STATE_UNINITED" "state s \<noteq> STATE_INITED" "state s \<noteq> STATE_SEND_0"
        "state s \<noteq> STATE_SEND_1" "state s \<noteq> STATE_WAIT_0" "state s \<noteq> STATE_WAIT_1"
    by blast
  then show ?thesis
  proof cases
    case uninit
    with assms(1) have "s' = snd (isButtonEvent (buttonPin inp) s) \<or>
        setState (millisNow inp) STATE_LEARN_0 (snd (isButtonEvent (buttonPin inp) s)) = Inr s'"
      by (auto simp: loop_def loopUninitialized_def split: prod.splits bool.splits)
    then show ?thesis
    proof
      assume "s' = snd (isButtonEvent (buttonPin inp) s)"
      with assms(3) uninit show ?thesis
        by (simp add: isButtonEvent_snd learning_def state_defs)
    next
      assume "setState (millisNow inp) STATE_LEARN_0 (snd (isButtonEvent (buttonPin inp) s)) = Inr s'"
      moreover have "STATE_LEARN_0 \<noteq> state (snd (isButtonEvent (buttonPin inp) s))"
        by (simp add: isButtonEvent_snd uninit state_defs)
      ultimately show ?thesis
        using assms(3) by (rule setState_fresh_cursor)
    qed
  next
    case inited
    with assms(1) have "s' = snd (isButtonEvent (buttonPin inp) s) \<or>
        setState (millisNow inp) STATE_SEND_0 (snd (isButtonEvent (buttonPin inp) s)) = Inr s'"
      by (auto simp: loop_def loopInitialized_def state_defs split: prod.splits bool.splits)
    then have "state s' = STATE_INITED \<or> state s' = STATE_SEND_0"
      using inited by (auto simp: isButtonEvent_snd dest: setState_state)
    with assms(3) show ?thesis
      by (auto simp: learning_def state_defs)
  next
    case send
    then have l: "loop inp s = loopTx (millisNow inp) s"
      by (auto simp: loop_def state_defs)
    have "state s' = state s \<or> state s' = state s + 1"
      using assms(1) unfolding l
      by (auto simp: loopTx_def Let_def txDrive_def emit_def
          split: option.splits if_splits dest!: setState_state)
    with send assms(3) show ?thesis
      by (auto simp: learning_def state_defs)
  next
    case wait
    then have l: "loop inp s = loopWait (buttonPin inp) (millisNow inp) s"
      by (auto simp: loop_def state_defs)
    have "state s' = state s \<or> state s' = state s + 1 \<or> state s' = STATE_SEND_0"
      using assms(1) unfolding l
      by (auto simp: loopWait_def isButtonEvent_def
          split: prod.splits bool.splits if_splits dest!: setState_state)
    with wait assms(3) show ?thesis
      by (auto simp: learning_def state_defs)
  next
    case other
    with nl have "loop inp s = setState (millisNow inp) STATE_SEND_0 s"
      by (simp add: loop_def)
    with assms(1) have "state s' = STATE_SEND_0"
      by (auto dest: setState_state)
    with assms(3) show ?thesis
      by (auto simp: learning_def state_defs)
  qed
qed

lemma reachable_cursor: "reachable s \<Longrightarrow> learning s \<Longrightarrow> rxCursorOk s"
proof (induction rule: reachable.induct)
  case reachable_setup
  then show ?case
    by (simp add: learning_def setup_board_def powerOn_def state_defs)
next
  case (reachable_loop s inp s')
  then show ?case
    by (blast intro: loop_preserves_cursor)
qed

lemma reachable_run: "reachable s \<Longrightarrow> run is s = Inr s' \<Longrightarrow> reachable s'"
proof (induction "is" arbitrary: s)
  case Nil
  then show ?case by simp
next
  case (Cons i "is")
  from Cons.prems(2) obtain s1 where "loop i s = Inr s1" and "run is s1 = Inr s'"
    by (auto split: sum.splits)
  with Cons.prems(1) Cons.IH show ?case
    by (blast intro: reachable_loop)
qed

lemmas run_defs =
  loop_def loopUninitialized_def loopInitialized_def loopRx_def loopTx_def loopWait_def
  isButtonEvent_def setState_def startRx_def startRx_on_def startTx_def startWait_def
  txDrive_def emit_def memset0_def slotBase_def kSlotLen_def kSigCells_def sizeof_ptr_def
  sizeof_u16_def setup_board_def powerOn_def poll_def kRxTimeoutMicros_def Let_def
  HIGH_def LOW_def state_defs

lemma learn_start:
  "\<exists>sL. run [poll LOW HIGH 0 0, poll HIGH HIGH 0 0] (setup_board powerOn) = Inr sL \<and>
     state sL = STATE_LEARN_0 \<and> rxBuf sL = Some 0 \<and> rxSize sL = 400 \<and>
     startMicros sL = 0 \<and> prevRx sL = HIGH \<and> sig sL = (\<lambda>_. 0)"
  by (simp add: run_defs fun_eq_iff)

lemma loopRx_learning_cases:
  assumes "rxCursorOk s" and "learning s"
  obtains (timeout) s' where "startMicros s \<noteq> 0" and "kRxTimeoutMicros \<le> now - startMicros s"
      and "loopRx rx now ms s = Inr s'" and "state s' = state s + 1"
      and "\<forall>j < 400. sig s' (rxBase s + j) = sig s (rxBase s + j)"
  | (idle) "startMicros s = 0 \<or> now - startMicros s < kRxTimeoutMicros" and "rx = prevRx s"
      and "loopRx rx now ms s = Inr s"
  | (store) p where "startMicros s = 0 \<or> now - startMicros s < kRxTimeoutMicros"
      and "rx \<noteq> prevRx s" and "rxBuf s = Some p" and "rxBase s \<le> p" and "p < rxBase s + 399"
      and "rxSize s \<noteq> 1"
      and "loopRx rx now ms s =
        Inr (s\<lparr>sig := (sig s)(p := ucast (now - startMicros s)), rxBuf := Some (p + 1),
               rxSize := rxSize s - 1, prevRx := rx, startMicros := now\<rparr>)"
  | (overflow) p where "startMicros s = 0 \<or> now - startMicros s < kRxTimeoutMicros"
      and "rx \<noteq> prevRx s" and "rxBuf s = Some p" and "p = rxBase s + 399" and "rxSize s = 1"
      and "loopRx rx now ms s =
        Inr (s\<lparr>state := STATE_UNINITED, sig := (sig s)(p := ucast (now - startMicros s)),
               rxBuf := Some (p + 1), rxSize := 0, prevRx := rx, startMicros := now,
               out := out s @ [DigitalWrite kRedLedPin LOW, DigitalWrite kGreenLedPin LOW]\<rparr>)"
proof -
  from assms obtain p where p: "rxBuf s = Some p" "rxBase s \<le> p" "p < rxBase s + 400"
    "unat (rxSize s) = rxBase s + 400 - p" "p < 800" "rxSize s = 1 \<longleftrightarrow> p = rxBase s + 399"
    by (rule rxCursorOk_D)
  from assms(2) have nu: "state s \<noteq> STATE_UNINITED"
    by (auto simp: learning_def state_defs)
  consider (a) "startMicros s \<noteq> 0 \<and> kRxTimeoutMicros \<le> now - startMicros s"
    | (b) "startMicros s = 0 \<or> now - startMicros s < kRxTimeoutMicros" "rx = prevRx s"
    | (c) "startMicros s = 0 \<or> now - startMicros s < kRxTimeoutMicros" "rx \<noteq> prevRx s"
        "rxSize s \<noteq> 1"
    | (d) "startMicros s = 0 \<or> now - startMicros s < kRxTimeoutMicros"
        "rx \<noteq> prevRx s" "rxSize s = 1"
    using not_le by blast
  then show thesis
  proof cases
    case a
    then have l: "loopRx rx now ms s = setState ms (state s + 1) s"
      by (simp add: loopRx_timeout)
    from assms(2) have "\<exists>s'. setState ms (state s + 1) s = Inr s' \<and> state s' = state s + 1 \<and>
        (\<forall>j < 400. sig s' (rxBase s + j) = sig s (rxBase s + j))"
      unfolding learning_def
    proof
      assume s0: "state s = STATE_LEARN_0"
      then have "state s + 1 = STATE_LEARN_1" "state s \<noteq> STATE_LEARN_1"
        by (simp_all add: state_defs)
      with s0 show ?thesis
        by (simp add: setState_LEARN_1 rxBase_def slotBase_simps)
    next
      assume s1: "state s = STATE_LEARN_1"
      then have "state s + 1 = STATE_INITED" "state s \<noteq> STATE_INITED"
        by (simp_all add: state_defs)
      then show ?thesis
        by (simp add: setState_INITED)
    qed
    then obtain s' where "setState ms (state s + 1) s = Inr s'" and "state s' = state s + 1"
      and "\<forall>j < 400. sig s' (rxBase s + j) = sig s (rxBase s + j)"
      by blast
    with a l show ?thesis
      by (intro timeout [of s']) simp_all
  next
    case b
    then show ?thesis
      by (intro idle) (simp_all add: loopRx_idle)
  next
    case c
    from c(3) p(3,6) have "p < rxBase s + 399" by auto
    then show ?thesis
      by (rule store [OF c(1) c(2) p(1) p(2) _ c(3) loopRx_store [OF c(1,2) p(1) p(5) c(3)]])
  next
    case d
    from d(3) p(6) have "p = rxBase s + 399" by simp
    then show ?thesis
      by (rule overflow [OF d(1) d(2) p(1) _ d(3) loopRx_overflow [OF d(1,2) p(1) p(5) d(3) nu]])
  qed
qed

lemma run_append:
  "run (xs @ ys) s = (case run xs s of Inl e \<Rightarrow> Inl e | Inr s1 \<Rightarrow> run ys s1)"
  by (induction xs arbitrary: s) (auto split: sum.splits)

text \<open>
  After an overflow the sketch is in \<open>STATE_UNINITED\<close>. From there a poll either stays
  or enters \<open>STATE_LEARN_0\<close>, which clears slot 0; and \<open>STATE_LEARN_0\<close> is left only back
  to \<open>STATE_UNINITED\<close> or into \<open>STATE_LEARN_1\<close>, which clears slot 1: nothing learned
  before the overflow is ever played.
\<close>

lemma relearning_clears_slots:
  "(state s = STATE_UNINITED \<and> loop inp s = Inr s' \<longrightarrow>
      state s' = STATE_UNINITED \<or> (state s' = STATE_LEARN_0 \<and> (\<forall>j < 400. sig s' j = 0))) \<and>
   (state s = STATE_LEARN_0 \<and> rxCursorOk s \<and> loop inp s = Inr s' \<longrightarrow>
      state s' = STATE_LEARN_0 \<or> state s' = STATE_UNINITED \<or>
      (state s' = STATE_LEARN_1 \<and> (\<forall>j < 400. sig s' (400 + j) = 0)))"
proof (intro conjI impI)
  assume a: "state s = STATE_UNINITED \<and> loop inp s = Inr s'"
  then have "s' = snd (isButtonEvent (buttonPin inp) s) \<or>
      setState (millisNow inp) STATE_LEARN_0 (snd (isButtonEvent (buttonPin inp) s)) = Inr s'"
    by (auto simp: loop_def loopUninitialized_def split: prod.splits bool.splits)
  moreover have "state (snd (isButtonEvent (buttonPin inp) s)) \<noteq> STATE_LEARN_0"
    using a by (simp add: isButtonEvent_snd state_defs)
  ultimately show "state s' = STATE_UNINITED \<or>
      (state s' = STATE_LEARN_0 \<and> (\<forall>j < 400. sig s' j = 0))"
    using a by (auto simp: setState_LEARN_0 isButtonEvent_snd)
next
  assume a: "state s = STATE_LEARN_0 \<and> rxCursorOk s \<and> loop inp s = Inr s'"
  then have "loop inp s = loopRx (rxPin inp) (microsNow inp) (millisNow inp) s"
    by (simp add: loop_def state_defs)
  with a have l: "loopRx (rxPin inp) (microsNow inp) (millisNow inp) s = Inr s'"
    by simp
  from a have ok: "rxCursorOk s" and le: "learning s"
    by (simp_all add: learning_def)
  from a have n: "state s + 1 = STATE_LEARN_1" "state s \<noteq> STATE_LEARN_1"
    by (simp_all add: state_defs)
  from ok le show "state s' = STATE_LEARN_0 \<or> state s' = STATE_UNINITED \<or>
      (state s' = STATE_LEARN_1 \<and> (\<forall>j < 400. sig s' (400 + j) = 0))"
  proof (cases rule: loopRx_learning_cases [of s "microsNow inp" "rxPin inp" "millisNow inp"])
    case (timeout t)
    then have "setState (millisNow inp) STATE_LEARN_1 s = Inr s'"
      using l n by (simp add: loopRx_timeout)
    with n show ?thesis by (auto simp: setState_LEARN_1)
  next
    case idle
    with l a show ?thesis by simp
  next
    case (store q)
    with l a show ?thesis by auto
  next
    case (overflow q)
    with l show ?thesis by auto
  qed
qed

lemma loop_uninited_total: "state s = STATE_UNINITED \<Longrightarrow> \<exists>s'. loop inp s = Inr s'"
  using setState_total [of "millisNow inp" STATE_LEARN_0 "snd (isButtonEvent (buttonPin inp) s)"]
  by (auto simp: loop_def loopUninitialized_def split: prod.splits bool.splits)

text \<open>
  Every run that leaves \<open>STATE_UNINITED\<close> and \<open>STATE_LEARN_0\<close> behind has entered
  \<open>STATE_LEARN_1\<close> on the way, with slot 1 cleared at that moment.
\<close>

lemma relearn_slot_1:
  assumes "state s = STATE_UNINITED \<or> (state s = STATE_LEARN_0 \<and> rxCursorOk s)"
    and "run is s = Inr s2" and "state s2 \<noteq> STATE_UNINITED" and "state s2 \<noteq> STATE_LEARN_0"
  shows "\<exists>is2 is3 b. is = is2 @ is3 \<and> run is2 s = Inr b \<and> state b = STATE_LEARN_1 \<and>
    (\<forall>j < 400. sig b (400 + j) = 0) \<and> run is3 b = Inr s2"
  using assms
proof (induction "is" arbitrary: s)
  case Nil
  then show ?case by auto
next
  case (Cons i "is")
  from Cons.prems(2) obtain s1 where l: "loop i s = Inr s1" and r: "run is s1 = Inr s2"
    by (auto split: sum.splits)
  from Cons.prems(1) have inv: "learning s \<longrightarrow> rxCursorOk s"
    by (auto simp: learning_def state_defs)
  from Cons.prems(1) relearning_clears_slots [of s i s1] l
  consider (again) "state s1 = STATE_UNINITED \<or> state s1 = STATE_LEARN_0"
    | (entered) "state s1 = STATE_LEARN_1" "\<forall>j < 400. sig s1 (400 + j) = 0"
    by blast
  then show ?case
  proof cases
    case again
    have "state s1 = STATE_UNINITED \<or> (state s1 = STATE_LEARN_0 \<and> rxCursorOk s1)"
    proof (cases "state s1 = STATE_LEARN_0")
      case True
      then have "learning s1" by (simp add: learning_def)
      with l inv have "rxCursorOk s1" by (rule loop_preserves_cursor)
      with True show ?thesis by simp
    next
      case False
      with again show ?thesis by simp
    qed
    from Cons.IH [OF this r Cons.prems(3,4)]
    obtain is2 is3 b where "is = is2 @ is3" and "run is2 s1 = Inr b"
      and "state b = STATE_LEARN_1" and "\<forall>j < 400. sig b (400 + j) = 0"
      and "run is3 b = Inr s2"
      by blast
    with l show ?thesis
      by (intro exI [of _ "i # is2"] exI [of _ is3] exI [of _ b]) simp
  next
    case entered
    with l r show ?thesis
      by (intro exI [of _ "[i]"] exI [of _ "is"] exI [of _ s1]) simp
  qed
qed

text \<open>
  Every run from \<open>STATE_UNINITED\<close> that ends anywhere else than in \<open>STATE_UNINITED\<close> or
  \<open>STATE_LEARN_0\<close> has entered \<open>STATE_LEARN_0\<close> with slot 0 cleared and later
  \<open>STATE_LEARN_1\<close> with slot 1 cleared.
\<close>

lemma relearn_both_slots:
  assumes "state s = STATE_UNINITED"
    and "run is s = Inr s2" and "state s2 \<noteq> STATE_UNINITED" and "state s2 \<noteq> STATE_LEARN_0"
  shows "\<exists>is1 is2 is3 a b. is = is1 @ is2 @ is3 \<and>
    run is1 s = Inr a \<and> state a = STATE_LEARN_0 \<and> (\<forall>j < 400. sig a j = 0) \<and>
    run is2 a = Inr b \<and> state b = STATE_LEARN_1 \<and> (\<forall>j < 400. sig b (400 + j) = 0) \<and>
    run is3 b = Inr s2"
  using assms
proof (induction "is" arbitrary: s)
  case Nil
  then show ?case by auto
next
  case (Cons i "is")
  from Cons.prems(2) obtain s1 where l: "loop i s = Inr s1" and r: "run is s1 = Inr s2"
    by (auto split: sum.splits)
  from Cons.prems(1) relearning_clears_slots [of s i s1] l
  consider (stay) "state s1 = STATE_UNINITED"
    | (entered) "state s1 = STATE_LEARN_0" "\<forall>j < 400. sig s1 j = 0"
    by blast
  then show ?case
  proof cases
    case stay
    from Cons.IH [OF this r Cons.prems(3,4)]
    obtain is1 is2 is3 a b where "is = is1 @ is2 @ is3" and "run is1 s1 = Inr a"
      and "state a = STATE_LEARN_0" and "\<forall>j < 400. sig a j = 0"
      and "run is2 a = Inr b" and "state b = STATE_LEARN_1"
      and "\<forall>j < 400. sig b (400 + j) = 0" and "run is3 b = Inr s2"
      by blast
    with l show ?thesis
      by (intro exI [of _ "i # is1"] exI [of _ is2] exI [of _ is3] exI [of _ a] exI [of _ b])
        simp
  next
    case entered
    from entered(1) have "learning s1" by (simp add: learning_def)
    moreover from Cons.prems(1) have "learning s \<longrightarrow> rxCursorOk s"
      by (simp add: learning_def state_defs)
    ultimately have "rxCursorOk s1"
      using l by (intro loop_preserves_cursor [of i s s1])
    with entered(1) have "state s1 = STATE_UNINITED \<or> (state s1 = STATE_LEARN_0 \<and> rxCursorOk s1)"
      by simp
    from relearn_slot_1 [OF this r Cons.prems(3,4)]
    obtain is2 is3 b where "is = is2 @ is3" and "run is2 s1 = Inr b"
      and "state b = STATE_LEARN_1" and "\<forall>j < 400. sig b (400 + j) = 0"
      and "run is3 b = Inr s2"
      by blast
    with l entered show ?thesis
      by (intro exI [of _ "[i]"] exI [of _ is2] exI [of _ is3] exI [of _ s1] exI [of _ b])
        simp
  qed
qed

text \<open>
  A slot filled up to its last cell can be reached: a first transition seen at clock
  value 7, then a level change at every poll.
\<close>

lemma almost_full_reachable:
  "1 \<le> k \<Longrightarrow> k \<le> 399 \<Longrightarrow>
   \<exists>s. reachable s \<and> state s = STATE_LEARN_0 \<and> rxBuf s = Some k \<and> startMicros s = 7 \<and>
     sig s 0 = 7 \<and> prevButton s = HIGH"
proof (induction k)
  case 0
  then show ?case by simp
next
  case (Suc k)
  show ?case
  proof (cases "k = 0")
    case True
    have "\<exists>s. run [poll LOW HIGH 0 0, poll HIGH HIGH 0 0, poll HIGH LOW 7 0]
          (setup_board powerOn) = Inr s \<and>
        state s = STATE_LEARN_0 \<and> rxBuf s = Some 1 \<and> startMicros s = 7 \<and> sig s 0 = 7 \<and>
        prevButton s = HIGH"
      by (simp add: run_defs)
    with True show ?thesis
      using reachable_run [OF reachable_setup] by fastforce
  next
    case False
    with Suc obtain s where re: "reachable s" and st: "state s = STATE_LEARN_0"
      and buf: "rxBuf s = Some k" and sm: "startMicros s = 7" and c0: "sig s 0 = 7"
      and pb: "prevButton s = HIGH"
      by auto
    from st have le: "learning s" by (simp add: learning_def)
    from st have base: "rxBase s = 0" by (simp add: rxBase_def slotBase_simps)
    from re le have "rxCursorOk s" by (rule reachable_cursor)
    then obtain p where "rxBuf s = Some p" and "rxSize s = 1 \<longleftrightarrow> p = rxBase s + 399"
      using le by (rule rxCursorOk_D)
    with buf base Suc.prems(2) have ne1: "rxSize s \<noteq> 1" by simp
    let ?rx = "prevRx s + 1"
    let ?s1 = "s\<lparr>sig := (sig s)(k := ucast (7 - startMicros s)), rxBuf := Some (k + 1),
               rxSize := rxSize s - 1, prevRx := ?rx, startMicros := 7\<rparr>"
    have "loopRx ?rx 7 0 s = Inr ?s1"
    proof (rule loopRx_store)
      show "startMicros s = 0 \<or> 7 - startMicros s < kRxTimeoutMicros"
        by (simp add: sm kRxTimeoutMicros_def)
      show "?rx \<noteq> prevRx s" by simp
      show "rxBuf s = Some k" by (rule buf)
      show "k < 800" using Suc.prems(2) by simp
      show "rxSize s \<noteq> 1" by (rule ne1)
    qed
    with st have "loop (poll HIGH ?rx 7 0) s = Inr ?s1"
      by (simp add: loop_def poll_def state_defs)
    with re have "reachable ?s1" by (rule reachable_loop)
    moreover from False c0 have "sig ?s1 0 = 7" by simp
    ultimately show ?thesis
      using st pb by (intro exI [of _ ?s1]) simp
  qed
qed

text \<open>
  C3. In every state the sketch can reach while learning, the capture cursor points
  into the slot being learned and \<open>rxSize\<close> is the number of cells left in it. A
  \<open>loopRx\<close> poll returns (it never stores outside \<open>sig\<close>); when it stores a duration,
  it stores it in the cell under the cursor, inside the slot, and changes no other
  cell; any store but the last leaves the state as it was, and a poll that times out
  stores nothing in the slot. The store into the last cell of the slot (the 400th
  entry, \<open>rxSize\<close> going from 1 to 0) leaves the sketch in \<open>STATE_UNINITED\<close>, and that
  discards what both slots hold: the next poll can only stay there or enter
  \<open>STATE_LEARN_0\<close> with every cell of slot 0 cleared, and every run of polls from
  there that ends anywhere else than in \<open>STATE_UNINITED\<close> or \<open>STATE_LEARN_0\<close> has
  entered \<open>STATE_LEARN_0\<close> with slot 0 cleared and then \<open>STATE_LEARN_1\<close> with slot 1
  cleared. So has every completed capture of slot 0: the timeout poll in
  \<open>STATE_LEARN_0\<close> enters \<open>STATE_LEARN_1\<close> with every cell of slot 1 cleared.
\<close>

theorem capture_stays_in_slot:
  assumes "reachable s" and "learning s"
  shows "\<exists>s' p. loopRx rx now ms s = Inr s' \<and> rxBuf s = Some p \<and>
    rxBase s \<le> p \<and> p < rxBase s + 400 \<and> unat (rxSize s) = rxBase s + 400 - p \<and>
    (if startMicros s \<noteq> 0 \<and> kRxTimeoutMicros \<le> now - startMicros s
     then state s' = state s + 1 \<and> (\<forall>j < 400. sig s' (rxBase s + j) = sig s (rxBase s + j)) \<and>
          (state s = STATE_LEARN_0 \<longrightarrow> (\<forall>j < 400. sig s' (400 + j) = 0))
     else if rx = prevRx s then s' = s
     else sig s' = (sig s)(p := ucast (now - startMicros s)) \<and>
          (if p = rxBase s + 399
           then rxSize s = 1 \<and> rxSize s' = 0 \<and> state s' = STATE_UNINITED \<and>
             (\<forall>inp. \<exists>s2. loop inp s' = Inr s2 \<and>
                (state s2 = STATE_UNINITED \<or>
                 (state s2 = STATE_LEARN_0 \<and> (\<forall>j < 400. sig s2 j = 0)))) \<and>
             (\<forall>is s2. run is s' = Inr s2 \<longrightarrow>
                state s2 = STATE_UNINITED \<or> state s2 = STATE_LEARN_0 \<or>
                (\<exists>is1 is2 is3 a b. is = is1 @ is2 @ is3 \<and>
                   run is1 s' = Inr a \<and> state a = STATE_LEARN_0 \<and> (\<forall>j < 400. sig a j = 0) \<and>
                   run is2 a = Inr b \<and> state b = STATE_LEARN_1 \<and>
                   (\<forall>j < 400. sig b (400 + j) = 0) \<and>
                   run is3 b = Inr s2))
           else state s' = state s \<and> rxBuf s' = Some (p + 1) \<and> rxSize s' = rxSize s - 1))"
proof -
  from assms have ok: "rxCursorOk s" by (rule reachable_cursor)
  then obtain p where p: "rxBuf s = Some p" "rxBase s \<le> p" "p < rxBase s + 400"
    "unat (rxSize s) = rxBase s + 400 - p"
    using assms(2) by (rule rxCursorOk_D)
  from ok assms(2) show ?thesis
  proof (cases rule: loopRx_learning_cases [of s now rx ms])
    case (timeout s')
    have "\<forall>j < 400. sig s' (400 + j) = 0" if s0: "state s = STATE_LEARN_0"
    proof -
      from s0 have "state s + 1 = STATE_LEARN_1" "state s \<noteq> STATE_LEARN_1"
        by (simp_all add: state_defs)
      with timeout(1,2,3) show ?thesis
        by (auto simp: loopRx_timeout setState_LEARN_1)
    qed
    with timeout p show ?thesis by auto
  next
    case idle
    with p show ?thesis by auto
  next
    case (store q)
    with p show ?thesis by auto
  next
    case (overflow q)
    let ?s' = "s\<lparr>state := STATE_UNINITED, sig := (sig s)(q := ucast (now - startMicros s)),
               rxBuf := Some (q + 1), rxSize := 0, prevRx := rx, startMicros := now,
               out := out s @ [DigitalWrite kRedLedPin LOW, DigitalWrite kGreenLedPin LOW]\<rparr>"
    have un: "state ?s' = STATE_UNINITED" by simp
    have one: "\<exists>s2. loop inp ?s' = Inr s2 \<and>
        (state s2 = STATE_UNINITED \<or> (state s2 = STATE_LEARN_0 \<and> (\<forall>j < 400. sig s2 j = 0)))"
      for inp
    proof -
      from un obtain s2 where "loop inp ?s' = Inr s2"
        using loop_uninited_total by blast
      with un relearning_clears_slots [of ?s' inp s2] show ?thesis by blast
    qed
    have many: "state s2 = STATE_UNINITED \<or> state s2 = STATE_LEARN_0 \<or>
        (\<exists>is1 is2 is3 a b. is = is1 @ is2 @ is3 \<and>
           run is1 ?s' = Inr a \<and> state a = STATE_LEARN_0 \<and> (\<forall>j < 400. sig a j = 0) \<and>
           run is2 a = Inr b \<and> state b = STATE_LEARN_1 \<and> (\<forall>j < 400. sig b (400 + j) = 0) \<and>
           run is3 b = Inr s2)"
      if "run is ?s' = Inr s2" for "is" s2
      using relearn_both_slots [OF un that] by blast
    from overflow p have "loopRx rx now ms s = Inr ?s'" and "rxBuf s = Some q" and "q = p"
      and "p = rxBase s + 399" and "rxSize s = 1" and "rx \<noteq> prevRx s"
      and "startMicros s = 0 \<or> now - startMicros s < kRxTimeoutMicros"
      by simp_all
    moreover have "sig ?s' = (sig s)(q := ucast (now - startMicros s))" "rxSize ?s' = 0"
      by simp_all
    ultimately show ?thesis
      using p un one many
      by (intro exI [of _ ?s'] exI [of _ p]) (auto simp: not_le [symmetric])
  qed
qed

theorem capture_stays_in_slot_witness:
  "\<exists>s s' s2. reachable s \<and> learning s \<and> rxBuf s = Some 399 \<and> sig s 0 = 7 \<and>
     loopRx (prevRx s + 1) 7 0 s = Inr s' \<and> state s' = STATE_UNINITED \<and> sig s' 0 = 7 \<and>
     run [poll LOW HIGH 7 0, poll HIGH HIGH 7 0] s' = Inr s2 \<and>
     state s2 = STATE_LEARN_0 \<and> sig s2 0 = 0"
proof -
  from almost_full_reachable [of 399] obtain s where re: "reachable s"
    and st: "state s = STATE_LEARN_0" and buf: "rxBuf s = Some 399"
    and sm: "startMicros s = 7" and c0: "sig s 0 = 7" and pb: "prevButton s = HIGH"
    by auto
  from st have le: "learning s" by (simp add: learning_def)
  from st have base: "rxBase s = 0" by (simp add: rxBase_def slotBase_simps)
  have quiet: "\<not> (startMicros s \<noteq> 0 \<and> kRxTimeoutMicros \<le> 7 - startMicros s)"
    by (simp add: sm kRxTimeoutMicros_def)
  from capture_stays_in_slot [OF re le, of "prevRx s + 1" 7 0]
  obtain s' p where l: "loopRx (prevRx s + 1) 7 0 s = Inr s'" and p: "rxBuf s = Some p"
    and c: "if startMicros s \<noteq> 0 \<and> kRxTimeoutMicros \<le> 7 - startMicros s
     then state s' = state s + 1 \<and> (\<forall>j < 400. sig s' (rxBase s + j) = sig s (rxBase s + j)) \<and>
          (state s = STATE_LEARN_0 \<longrightarrow> (\<forall>j < 400. sig s' (400 + j) = 0))
     else if prevRx s + 1 = prevRx s then s' = s
     else sig s' = (sig s)(p := ucast (7 - startMicros s)) \<and>
          (if p = rxBase s + 399
           then rxSize s = 1 \<and> rxSize s' = 0 \<and> state s' = STATE_UNINITED \<and>
             (\<forall>inp. \<exists>s2. loop inp s' = Inr s2 \<and>
                (state s2 = STATE_UNINITED \<or>
                 (state s2 = STATE_LEARN_0 \<and> (\<forall>j < 400. sig s2 j = 0)))) \<and>
             (\<forall>is s2. run is s' = Inr s2 \<longrightarrow>
                state s2 = STATE_UNINITED \<or> state s2 = STATE_LEARN_0 \<or>
                (\<exists>is1 is2 is3 a b. is = is1 @ is2 @ is3 \<and>
                   run is1 s' = Inr a \<and> state a = STATE_LEARN_0 \<and> (\<forall>j < 400. sig a j = 0) \<and>
                   run is2 a = Inr b \<and> state b = STATE_LEARN_1 \<and>
                   (\<forall>j < 400. sig b (400 + j) = 0) \<and>
                   run is3 b = Inr s2))
           else state s' = state s \<and> rxBuf s' = Some (p + 1) \<and> rxSize s' = rxSize s - 1)"
    by (elim exE conjE)
  from p buf have p399: "p = 399" by simp
  from c quiet p399 base have sg: "sig s' = (sig s)(399 := ucast (7 - startMicros s))"
    and un: "state s' = STATE_UNINITED"
    by simp_all
  from sg c0 have c0': "sig s' 0 = 7" by simp
  have "rxSize s = 1" using c quiet p399 base by simp
  then have "loopRx (prevRx s + 1) 7 0 s =
     Inr (s\<lparr>state := STATE_UNINITED, sig := (sig s)(399 := ucast (7 - startMicros s)),
            rxBuf := Some (399 + 1), rxSize := 0, prevRx := prevRx s + 1, startMicros := 7,
            out := out s @ [DigitalWrite kRedLedPin LOW, DigitalWrite kGreenLedPin LOW]\<rparr>)"
    using st by (intro loopRx_overflow) (simp_all add: sm kRxTimeoutMicros_def buf state_defs)
  with l pb have pb': "prevButton s' = HIGH" by auto
  from un pb' have l1: "loop (poll LOW HIGH 7 0) s' = Inr (s'\<lparr>prevButton := LOW\<rparr>)"
    by (simp add: loop_def loopUninitialized_def isButtonEvent_def poll_def HIGH_def LOW_def)
  obtain s2 where l2: "loop (poll HIGH HIGH 7 0) (s'\<lparr>prevButton := LOW\<rparr>) = Inr s2"
    and "state s2 = STATE_LEARN_0 \<and> sig s2 0 = 0"
  proof -
    have "loop (poll HIGH HIGH 7 0) (s'\<lparr>prevButton := LOW\<rparr>)
        = setState 0 STATE_LEARN_0 (s'\<lparr>prevButton := HIGH\<rparr>)"
      using un by (simp add: loop_def loopUninitialized_def isButtonEvent_def poll_def
          HIGH_def LOW_def)
    moreover have "state (s'\<lparr>prevButton := HIGH\<rparr>) \<noteq> STATE_LEARN_0"
      using un by (simp add: state_defs)
    ultimately have "\<exists>s2. loop (poll HIGH HIGH 7 0) (s'\<lparr>prevButton := LOW\<rparr>) = Inr s2 \<and>
        state s2 = STATE_LEARN_0 \<and> sig s2 0 = 0"
      by (simp add: setState_LEARN_0)
    then show ?thesis using that by blast
  qed
  from l1 l2 have "run [poll LOW HIGH 7 0, poll HIGH HIGH 7 0] s' = Inr s2"
    by simp
  with re le buf c0 l un c0' \<open>state s2 = STATE_LEARN_0 \<and> sig s2 0 = 0\<close> show ?thesis
    by (intro exI [of _ s] exI [of _ s'] exI [of _ s2]) simp
qed

text \<open>
  C4, as the code has it. \<open>startMicros\<close> is zero until a transition is stored and is
  then the clock value read at the last transition stored; the test for completion is
  \<open>startMicros != 0 && now - startMicros >= kRxTimeoutMicros\<close>. So, as long as the clock
  did not read 0 at the last transition stored, a \<open>loopRx\<close> poll in a learning state
  advances the state exactly when at least one transition has been stored
  (\<open>rxSize\<close> is below 400) and at least 65,536 microseconds have passed since the
  last one; while no transition has been stored the state stays as it is, whatever
  the clock reads, and a poll that sees no level change changes nothing.
\<close>

theorem capture_completes_on_timeout:
  assumes "reachable s" and "learning s" and "rxSize s = 400 \<or> startMicros s \<noteq> 0"
  shows "\<exists>s'. loopRx rx now ms s = Inr s' \<and>
     (state s' = state s + 1 \<longleftrightarrow> rxSize s \<noteq> 400 \<and> kRxTimeoutMicros \<le> now - startMicros s) \<and>
     (rxSize s = 400 \<longrightarrow> state s' = state s \<and> (rx = prevRx s \<longrightarrow> s' = s))"
proof -
  from assms(1,2) have ok: "rxCursorOk s" by (rule reachable_cursor)
  then obtain p where p: "rxBuf s = Some p" "rxBase s \<le> p" "p < rxBase s + 400"
    "unat (rxSize s) = rxBase s + 400 - p" "p = rxBase s \<longrightarrow> startMicros s = 0"
    using assms(2) by (rule rxCursorOk_D)
  have "rxSize s = 400 \<longleftrightarrow> unat (rxSize s) = 400"
    by (simp add: word_unat_eq_iff)
  with p have none: "rxSize s = 400 \<longleftrightarrow> startMicros s = 0"
    using assms(3) by auto
  from assms(2) have ne: "state s + 1 \<noteq> STATE_UNINITED" "state s + 1 \<noteq> state s"
    by (auto simp: learning_def state_defs)
  from ok assms(2) show ?thesis
  proof (cases rule: loopRx_learning_cases [of s now rx ms])
    case (timeout s')
    with none show ?thesis by auto
  next
    case idle
    with none ne show ?thesis by (auto simp: not_le [symmetric])
  next
    case (store q)
    with none ne show ?thesis by (auto simp: not_le [symmetric])
  next
    case (overflow q)
    with none ne show ?thesis by (auto simp: not_le [symmetric])
  qed
qed

theorem capture_completes_on_timeout_witness:
  "\<exists>sL. run [poll LOW HIGH 0 0, poll HIGH HIGH 0 0] (setup_board powerOn) = Inr sL \<and>
     learning sL \<and> rxSize sL = 400 \<and> loopRx HIGH 70000 0 sL = Inr sL"
proof -
  from learn_start obtain sL
    where r: "run [poll LOW HIGH 0 0, poll HIGH HIGH 0 0] (setup_board powerOn) = Inr sL"
      and f: "state sL = STATE_LEARN_0" "rxSize sL = 400" "prevRx sL = HIGH"
    by blast
  from reachable_setup r have re: "reachable sL" by (rule reachable_run)
  from f have le: "learning sL" by (simp add: learning_def)
  from capture_completes_on_timeout [OF re le, of HIGH 70000 0] f
  have "loopRx HIGH 70000 0 sL = Inr sL" by auto
  with r le f show ?thesis by blast
qed

text \<open>
  C4 as stated fails at the boundary: with one transition stored at clock value 1000,
  a poll at 66536 finds that exactly 65,536 microseconds have passed, which does not
  exceed the timeout, and still completes the capture.
\<close>

theorem capture_completes_on_timeout_counterexample:
  "map_sum id (\<lambda>s. (state s, startMicros s, rxSize s))
     (run [poll LOW HIGH 0 0, poll HIGH HIGH 0 0, poll HIGH LOW 1000 0] (setup_board powerOn))
     = Inr (STATE_LEARN_0, 1000, 399) \<and>
   map_sum id state
     (run [poll LOW HIGH 0 0, poll HIGH HIGH 0 0, poll HIGH LOW 1000 0, poll HIGH LOW 66536 0]
        (setup_board powerOn))
     = Inr STATE_LEARN_1 \<and>
   \<not> (kRxTimeoutMicros < 66536 - 1000)"
  by (simp add: run_defs)

text \<open>
  The zero that marks "no transition stored yet" is also a value the clock can read:
  a transition stored at clock value 0 switches the timeout test off again, and the
  capture no longer completes however long the silence lasts.
\<close>

lemma capture_timeout_lost_at_clock_zero:
  "map_sum id (\<lambda>s. (state s, startMicros s, rxSize s))
     (run [poll LOW HIGH 0 0, poll HIGH HIGH 0 0, poll HIGH LOW 0 0, poll HIGH LOW 70000 0]
        (setup_board powerOn))
     = Inr (STATE_LEARN_0, 0, 399)"
  by (simp add: run_defs)

section \<open>Properties: capture of a signal\<close>

lemma pollsRx_append:
  "pollsRx (xs @ ys) ms s = (case pollsRx xs ms s of Inl e \<Rightarrow> Inl e | Inr s1 \<Rightarrow> pollsRx ys ms s1)"
  by (induction xs arbitrary: s) (auto split: sum.splits)

lemma rxBase_cases: "rxBase s = 0 \<or> rxBase s = 400"
  by (simp add: rxBase_def slotBase_simps)

lemma edgeTimes_nth:
  "edgeTimes ts \<Longrightarrow> Suc k < length ts \<Longrightarrow>
   ts ! k < ts ! Suc k \<and> ts ! Suc k - ts ! k < kRxTimeoutMicros"
proof (induction ts arbitrary: k rule: edgeTimes.induct)
  case 1
  then show ?case by simp
next
  case (2 t)
  then show ?case by simp
next
  case (3 t t' ts)
  then show ?case by (cases k) simp_all
qed

text \<open>
  Polls that never time out: the idle ones change nothing, and each of the others
  stores the time since the transition before it in the next cell.
\<close>

lemma pollsRx_quiet:
  assumes "learning s" and "rxBuf s = Some p" and "rxBase s \<le> p"
    and "p + length (edges (prevRx s) ps) < rxBase s + 400"
    and "unat (rxSize s) = rxBase s + 400 - p"
    and "quiet lst (prevRx s) ps"
    and "case lst of None \<Rightarrow> startMicros s = 0 | Some t0 \<Rightarrow> startMicros s = t0"
  shows "\<exists>s'. pollsRx ps ms s = Inr s' \<and> state s' = state s \<and>
    rxBuf s' = Some (p + length (edges (prevRx s) ps)) \<and>
    startMicros s' = last (startMicros s # edges (prevRx s) ps) \<and> out s' = out s \<and>
    (\<forall>k < length (edges (prevRx s) ps).
       sig s' (p + k) = ucast (edges (prevRx s) ps ! k - (startMicros s # edges (prevRx s) ps) ! k)) \<and>
    (\<forall>a. a < p \<or> p + length (edges (prevRx s) ps) \<le> a \<longrightarrow> sig s' a = sig s a)"
  using assms
proof (induction ps arbitrary: s p lst)
  case Nil
  then show ?case by simp
next
  case (Cons poll ps)
  obtain rx t where poll: "poll = (rx, t)" by (cases poll)
  from Cons.prems(6,7) have q: "startMicros s = 0 \<or> t - startMicros s < kRxTimeoutMicros"
    by (cases lst) (simp_all add: poll)
  show ?case
  proof (cases "rx = prevRx s")
    case True
    then have step: "loopRx rx t ms s = Inr s"
      using q by (intro loopRx_idle)
    from True Cons.prems(6) have "quiet lst (prevRx s) ps"
      by (simp add: poll)
    with Cons.prems(1,2,3,4,5,7) True
    have "\<exists>s'. pollsRx ps ms s = Inr s' \<and> state s' = state s \<and>
      rxBuf s' = Some (p + length (edges (prevRx s) ps)) \<and>
      startMicros s' = last (startMicros s # edges (prevRx s) ps) \<and> out s' = out s \<and>
      (\<forall>k < length (edges (prevRx s) ps).
         sig s' (p + k) = ucast (edges (prevRx s) ps ! k - (startMicros s # edges (prevRx s) ps) ! k)) \<and>
      (\<forall>a. a < p \<or> p + length (edges (prevRx s) ps) \<le> a \<longrightarrow> sig s' a = sig s a)"
      by (intro Cons.IH [of s p lst]) (simp_all add: poll)
    with True step show ?thesis
      by (simp add: poll)
  next
    case False
    let ?ts = "edges rx ps"
    let ?s1 = "s\<lparr>sig := (sig s)(p := ucast (t - startMicros s)), rxBuf := Some (p + 1),
              rxSize := rxSize s - 1, prevRx := rx, startMicros := t\<rparr>"
    from False have ed: "edges (prevRx s) (poll # ps) = t # ?ts"
      by (simp add: poll)
    from Cons.prems(4) have room: "p + 1 + length ?ts < rxBase s + 400"
      by (simp add: ed)
    from Cons.prems(3) room rxBase_cases [of s] have p800: "p < 800" by auto
    from room Cons.prems(5) have big: "2 \<le> unat (rxSize s)" by simp
    then have ne1: "rxSize s \<noteq> 1" and ne0: "rxSize s \<noteq> 0" by auto
    have step: "loopRx rx t ms s = Inr ?s1"
      using q False Cons.prems(2) p800 ne1 by (rule loopRx_store)
    have size1: "unat (rxSize ?s1) = rxBase ?s1 + 400 - (p + 1)"
      using Cons.prems(5) unat_minus_one [OF ne0] by (simp add: rxBase_def)
    have "\<exists>s'. pollsRx ps ms ?s1 = Inr s' \<and> state s' = state ?s1 \<and>
      rxBuf s' = Some (p + 1 + length (edges (prevRx ?s1) ps)) \<and>
      startMicros s' = last (startMicros ?s1 # edges (prevRx ?s1) ps) \<and> out s' = out ?s1 \<and>
      (\<forall>k < length (edges (prevRx ?s1) ps).
         sig s' (p + 1 + k) =
           ucast (edges (prevRx ?s1) ps ! k - (startMicros ?s1 # edges (prevRx ?s1) ps) ! k)) \<and>
      (\<forall>a. a < p + 1 \<or> p + 1 + length (edges (prevRx ?s1) ps) \<le> a \<longrightarrow> sig s' a = sig ?s1 a)"
    proof (rule Cons.IH [of ?s1 "p + 1" "Some t"])
      show "learning ?s1" using Cons.prems(1) by (simp add: learning_def)
      show "rxBuf ?s1 = Some (p + 1)" by simp
      show "rxBase ?s1 \<le> p + 1" using Cons.prems(3) by (simp add: rxBase_def)
      show "p + 1 + length (edges (prevRx ?s1) ps) < rxBase ?s1 + 400"
        using room by (simp add: rxBase_def)
      show "unat (rxSize ?s1) = rxBase ?s1 + 400 - (p + 1)" by (rule size1)
      show "quiet (Some t) (prevRx ?s1) ps" using Cons.prems(6) False by (simp add: poll)
      show "case Some t of None \<Rightarrow> startMicros ?s1 = 0 | Some t0 \<Rightarrow> startMicros ?s1 = t0"
        by simp
    qed
    then obtain s' where run: "pollsRx ps ms ?s1 = Inr s'"
      and st: "state s' = state s" and buf: "rxBuf s' = Some (p + 1 + length ?ts)"
      and sm: "startMicros s' = last (t # ?ts)" and ou: "out s' = out s"
      and inner: "\<forall>k < length ?ts. sig s' (p + 1 + k) = ucast (?ts ! k - (t # ?ts) ! k)"
      and outer: "\<forall>a. a < p + 1 \<or> p + 1 + length ?ts \<le> a \<longrightarrow> sig s' a = sig ?s1 a"
      by auto
    have cells: "sig s' (p + k) = ucast ((t # ?ts) ! k - (startMicros s # t # ?ts) ! k)"
      if "k < length (t # ?ts)" for k
    proof (cases k)
      case 0
      with outer [rule_format, of p] show ?thesis by simp
    next
      case (Suc j)
      with that inner [rule_format, of j] show ?thesis by simp
    qed
    have rest: "sig s' a = sig s a" if "a < p \<or> p + length (t # ?ts) \<le> a" for a
      using that outer [rule_format, of a] by auto
    from False step run st buf sm ou cells rest show ?thesis
      by (simp add: poll add.commute add.left_commute)
  qed
qed

lemma ucast_gap:
  fixes a b :: u32
  assumes "a < b" and "b - a < kRxTimeoutMicros"
  shows "unat (ucast (b - a) :: u16) = unat b - unat a"
proof -
  from assms(1) have "unat (b - a) = unat b - unat a"
    by (simp add: unat_sub word_less_def word_le_def)
  moreover from assms(2) have "unat (b - a) < 65536"
    by (simp add: kRxTimeoutMicros_def word_less_nat_alt)
  ultimately show ?thesis
    by (simp add: unsigned_ucast_eq take_bit_nat_eq_self unsigned_take_bit_eq)
qed


text \<open>
  C2, as the code has it. Capture of slot \<open>i\<close>, entered as \<open>setState\<close> enters it. The
  pin is polled any number of times, none of the polls 65,536 microseconds or more
  after the transition before it; the polls see the level change at the times
  \<open>ts = [t0, ..., tn]\<close>, increasing, each less than 65,536 microseconds after the one
  before, fewer than 400 of them, the last not at clock value 0; a last poll comes at
  \<open>T\<close>, at least 65,536 microseconds after \<open>tn\<close>. Then \<open>startRx\<close> and the polls return,
  the state has advanced, and the slot holds \<open>n + 1\<close> entries followed by zeros: entry
  0 is the low 16 bits of \<open>t0\<close> (the time from the initial \<open>startMicros = 0\<close>), and
  entry \<open>k + 1\<close> is \<open>t(k+1) - tk\<close>.
\<close>

theorem capture_records_transitions:
  assumes "(i = 0 \<and> state s = STATE_LEARN_0) \<or> (i = 1 \<and> state s = STATE_LEARN_1)"
    and "quiet None HIGH ps" and "ts = edges HIGH ps"
    and "ts \<noteq> []" and "edgeTimes ts" and "length ts < 400"
    and "last ts \<noteq> 0" and "kRxTimeoutMicros \<le> T - last ts"
  shows "\<exists>s0 s'. startRx i s = Inr s0 \<and>
    pollsRx (ps @ [(rx, T)]) ms s0 = Inr s' \<and>
    state s' = state s + 1 \<and>
    sig s' (slotBase i) = ucast (hd ts) \<and>
    (\<forall>k. Suc k < length ts \<longrightarrow>
       unat (sig s' (slotBase i + Suc k)) = unat (ts ! Suc k) - unat (ts ! k)) \<and>
    (\<forall>j. length ts \<le> j \<and> j < 400 \<longrightarrow> sig s' (slotBase i + j) = 0)"
proof -
  let ?p = "slotBase i"
  let ?s0 = "s\<lparr>rxBuf := Some ?p, rxSize := 400,
       sig := (\<lambda>a. if ?p \<le> a \<and> a < ?p + 400 then 0 else sig s a),
       startMicros := 0, prevRx := HIGH\<rparr>"
  from assms(1) have i: "i = 0 \<or> i = 1" by auto
  then have start: "startRx i s = Inr ?s0" by (rule startRx_ok)
  from assms(1) have base: "rxBase ?s0 = ?p"
    by (auto simp: rxBase_def learn_distinct [symmetric])
  from assms(1) have learn: "learning ?s0" by (auto simp: learning_def)
  have "\<exists>s'. pollsRx ps ms ?s0 = Inr s' \<and> state s' = state ?s0 \<and>
    rxBuf s' = Some (?p + length (edges (prevRx ?s0) ps)) \<and>
    startMicros s' = last (startMicros ?s0 # edges (prevRx ?s0) ps) \<and> out s' = out ?s0 \<and>
    (\<forall>k < length (edges (prevRx ?s0) ps).
       sig s' (?p + k) =
         ucast (edges (prevRx ?s0) ps ! k - (startMicros ?s0 # edges (prevRx ?s0) ps) ! k)) \<and>
    (\<forall>a. a < ?p \<or> ?p + length (edges (prevRx ?s0) ps) \<le> a \<longrightarrow> sig s' a = sig ?s0 a)"
    using learn
  proof (rule pollsRx_quiet [where lst = None])
    show "rxBuf ?s0 = Some ?p" by simp
    show "rxBase ?s0 \<le> ?p" by (simp add: base)
    show "?p + length (edges (prevRx ?s0) ps) < rxBase ?s0 + 400"
      using assms(3,6) by (simp add: base)
    show "unat (rxSize ?s0) = rxBase ?s0 + 400 - ?p" by (simp add: base)
    show "quiet None (prevRx ?s0) ps" using assms(2) by simp
    show "case None of None \<Rightarrow> startMicros ?s0 = 0 | Some t0 \<Rightarrow> startMicros ?s0 = t0"
      by simp
  qed
  then obtain sm where run: "pollsRx ps ms ?s0 = Inr sm"
    and st: "state sm = state s" and sm: "startMicros sm = last ts"
    and inner: "\<forall>k < length ts. sig sm (?p + k) = ucast (ts ! k - (0 # ts) ! k)"
    and outer: "\<forall>a. a < ?p \<or> ?p + length ts \<le> a \<longrightarrow> sig sm a = sig ?s0 a"
    using assms(3,4) by auto
  from assms(7,8) sm have fin: "loopRx rx T ms sm = setState ms (state sm + 1) sm"
    by (simp add: loopRx_timeout)
  have "\<exists>s'. setState ms (state sm + 1) sm = Inr s' \<and> state s' = state s + 1 \<and>
      (\<forall>j < 400. sig s' (?p + j) = sig sm (?p + j))"
    using assms(1)
  proof
    assume a: "i = 0 \<and> state s = STATE_LEARN_0"
    with st have "state sm + 1 = STATE_LEARN_1" "state sm \<noteq> STATE_LEARN_1"
      by (simp_all add: state_defs)
    with a st show ?thesis
      by (simp add: setState_LEARN_1 slotBase_simps)
  next
    assume a: "i = 1 \<and> state s = STATE_LEARN_1"
    with st have "state sm + 1 = STATE_INITED" "state sm \<noteq> STATE_INITED"
      by (simp_all add: state_defs)
    with a st show ?thesis
      by (simp add: setState_INITED)
  qed
  then obtain s' where s': "setState ms (state sm + 1) sm = Inr s'"
    and st': "state s' = state s + 1"
    and keep: "\<forall>j < 400. sig s' (?p + j) = sig sm (?p + j)"
    by blast
  have whole: "pollsRx (ps @ [(rx, T)]) ms ?s0 = Inr s'"
    by (simp add: pollsRx_append run fin s')
  have first: "sig s' ?p = ucast (hd ts)"
    using keep [rule_format, of 0] inner [rule_format, of 0] assms(4)
    by (simp add: hd_conv_nth)
  have gaps: "unat (sig s' (?p + Suc k)) = unat (ts ! Suc k) - unat (ts ! k)"
    if "Suc k < length ts" for k
  proof -
    from that assms(6) have "Suc k < 400" by simp
    with keep have "sig s' (?p + Suc k) = sig sm (?p + Suc k)" by blast
    also from that inner [rule_format, of "Suc k"] have "\<dots> = ucast (ts ! Suc k - ts ! k)"
      by simp
    finally show ?thesis
      using edgeTimes_nth [OF assms(5) that] by (simp add: ucast_gap)
  qed
  have zeros: "sig s' (?p + j) = 0" if "length ts \<le> j \<and> j < 400" for j
  proof -
    from that keep have "sig s' (?p + j) = sig sm (?p + j)" by blast
    also from that outer have "\<dots> = sig ?s0 (?p + j)" by simp
    also from that have "\<dots> = 0" by simp
    finally show ?thesis .
  qed
  from start whole st' first gaps zeros show ?thesis
    by blast
qed

theorem capture_records_transitions_witness:
  "\<exists>s0 s'. startRx 0 (powerOn\<lparr>state := STATE_LEARN_0\<rparr>) = Inr s0 \<and>
     pollsRx [(HIGH, 400), (LOW, 1000), (LOW, 1200), (HIGH, 1500), (HIGH, 60000), (HIGH, 67036)]
       0 s0 = Inr s' \<and>
     state s' = STATE_LEARN_1 \<and> sig s' 0 = 1000 \<and> unat (sig s' 1) = 500 \<and> sig s' 2 = 0"
proof -
  let ?s = "powerOn\<lparr>state := STATE_LEARN_0\<rparr>"
  let ?ps = "[(HIGH, 400), (LOW, 1000), (LOW, 1200), (HIGH, 1500), (HIGH, 60000)] :: (u8 \<times> u32) list"
  have a: "(0 = (0 :: u8) \<and> state ?s = STATE_LEARN_0) \<or> (0 = (1 :: u8) \<and> state ?s = STATE_LEARN_1)"
    by simp
  have q: "quiet None HIGH ?ps"
    by (simp add: kRxTimeoutMicros_def HIGH_def LOW_def)
  have e: "[1000, 1500] = edges HIGH ?ps"
    by (simp add: HIGH_def LOW_def)
  have b: "edgeTimes [1000, 1500]" and c: "length [1000 :: u32, 1500] < 400"
    and d: "last [1000 :: u32, 1500] \<noteq> 0" and f: "kRxTimeoutMicros \<le> 67036 - last [1000, 1500]"
    by (simp_all add: kRxTimeoutMicros_def)
  from capture_records_transitions [OF a q e _ b c d f, of HIGH 0]
  obtain s0 s' where r: "startRx 0 ?s = Inr s0"
    "pollsRx (?ps @ [(HIGH, 67036)]) 0 s0 = Inr s'"
    "state s' = state ?s + 1" "sig s' (slotBase 0) = ucast (hd [1000 :: u32, 1500])"
    and g: "\<forall>k. Suc k < length [1000 :: u32, 1500] \<longrightarrow>
       unat (sig s' (slotBase 0 + Suc k)) = unat ([1000 :: u32, 1500] ! Suc k) - unat ([1000 :: u32, 1500] ! k)"
    and z: "\<forall>j. length [1000 :: u32, 1500] \<le> j \<and> j < 400 \<longrightarrow> sig s' (slotBase 0 + j) = 0"
    by auto
  from g [rule_format, of 0] have "unat (sig s' 1) = 500"
    by (simp add: slotBase_simps)
  moreover from z [rule_format, of 2] have "sig s' 2 = 0"
    by (simp add: slotBase_simps numeral_2_eq_2)
  ultimately show ?thesis
    using r by (simp add: slotBase_simps state_defs)
qed

text \<open>
  C2 as stated fails: with the two transitions at 1000 and 1500 (\<open>n = 1\<close>) and the next
  poll at 67036, the slot does not hold the single value \<open>t1 - t0 = 500\<close> but two
  values, 1000 and 500.
\<close>

theorem capture_records_transitions_counterexample:
  "map_sum id (\<lambda>s. (state s, sig s 0, sig s 1, sig s 2))
     (run [poll LOW HIGH 0 0, poll HIGH HIGH 0 0, poll HIGH LOW 1000 0, poll HIGH HIGH 1500 0,
           poll HIGH HIGH 67036 0] (setup_board powerOn))
     = Inr (STATE_LEARN_1, 1000, 500, 0) \<and>
   (1000 :: u16) \<noteq> 1500 - 1000"
  by (simp add: run_defs)

section \<open>Properties: the send and wait cycle\<close>

lemma isButtonEvent_no_press:
  "\<not> (btn = HIGH \<and> prevButton s \<noteq> HIGH) \<Longrightarrow> isButtonEvent btn s = (False, s\<lparr>prevButton := btn\<rparr>)"
  by (auto simp: isButtonEvent_def)

lemma loopWait_elapsed:
  assumes "\<not> (btn = HIGH \<and> prevButton s \<noteq> HIGH)" and "waitDelayMillis s < ms - waitStartMillis s"
  shows "loopWait btn ms s = setState ms (state s + 1) (s\<lparr>prevButton := btn, waitStartMillis := 0\<rparr>)"
  using assms by (simp add: loopWait_def isButtonEvent_no_press)

text \<open>
  C5. With no press edge on the button and more than the armed delay elapsed, a poll in
  \<open>STATE_WAIT_0\<close> enters \<open>STATE_SEND_1\<close> with the playback cursor on slot 1. A poll in
  \<open>STATE_WAIT_1\<close> stores \<open>STATE_WAIT_1 + 1 = 8\<close>, which is no enumerator, and the next
  poll, whatever it reads, enters \<open>STATE_SEND_0\<close> with the cursor on slot 0 through the
  default branch of \<open>loop\<close>; the same holds for any state value above
  \<open>STATE_WAIT_1\<close>, so no such value lasts longer than one poll. The poll that plays the
  last entry of a slot enters the wait state after the sending state, which closes the
  cycle \<open>SEND_0, WAIT_0, SEND_1, WAIT_1, SEND_0\<close>.
\<close>

theorem wait_advances_to_send:
  "(state s = STATE_WAIT_0 \<and> \<not> (buttonPin inp = HIGH \<and> prevButton s \<noteq> HIGH) \<and>
      waitDelayMillis s < millisNow inp - waitStartMillis s \<longrightarrow>
      (\<exists>s'. loop inp s = Inr s' \<and> state s' = STATE_SEND_1 \<and> txBuf s' = Some 400 \<and>
         \<not> txHigh s' \<and> txLen s' = of_nat (trimTail (sig s) 400 400))) \<and>
   (state s = STATE_WAIT_1 \<and> \<not> (buttonPin inp = HIGH \<and> prevButton s \<noteq> HIGH) \<and>
      waitDelayMillis s < millisNow inp - waitStartMillis s \<longrightarrow>
      (\<exists>s1. loop inp s = Inr s1 \<and> state s1 = 8 \<and>
         (\<forall>inp2. \<exists>s2. loop inp2 s1 = Inr s2 \<and> state s2 = STATE_SEND_0 \<and>
            txBuf s2 = Some 0 \<and> \<not> txHigh s2 \<and> txLen s2 = of_nat (trimTail (sig s) 0 400)))) \<and>
   (STATE_WAIT_1 < state s \<longrightarrow>
      (\<exists>s'. loop inp s = Inr s' \<and> state s' = STATE_SEND_0 \<and> txBuf s' = Some 0)) \<and>
   ((state s = STATE_SEND_0 \<or> state s = STATE_SEND_1) \<and> txLen s = 1 \<and>
      txBuf s = Some p \<and> p < 800 \<longrightarrow>
      (\<exists>s'. loop inp s = Inr s' \<and> state s' = state s + 1 \<and>
         waitStartMillis s' = millisNow inp \<and> waitDelayMillis s' = 43200000))"
proof (intro conjI impI)
  assume a: "state s = STATE_WAIT_0 \<and> \<not> (buttonPin inp = HIGH \<and> prevButton s \<noteq> HIGH) \<and>
      waitDelayMillis s < millisNow inp - waitStartMillis s"
  then have "loop inp s = loopWait (buttonPin inp) (millisNow inp) s"
    by (simp add: loop_def state_defs)
  also from a have "\<dots> = setState (millisNow inp) (state s + 1)
      (s\<lparr>prevButton := buttonPin inp, waitStartMillis := 0\<rparr>)"
    by (intro loopWait_elapsed) simp_all
  also from a have "state s + 1 = STATE_SEND_1" by (simp add: state_defs)
  finally have "loop inp s = setState (millisNow inp) STATE_SEND_1
      (s\<lparr>prevButton := buttonPin inp, waitStartMillis := 0\<rparr>)" .
  moreover from a have "state (s\<lparr>prevButton := buttonPin inp, waitStartMillis := 0\<rparr>) \<noteq> STATE_SEND_1"
    by (simp add: state_defs)
  ultimately show "\<exists>s'. loop inp s = Inr s' \<and> state s' = STATE_SEND_1 \<and> txBuf s' = Some 400 \<and>
         \<not> txHigh s' \<and> txLen s' = of_nat (trimTail (sig s) 400 400)"
    by (simp add: setState_SEND_1)
next
  assume a: "state s = STATE_WAIT_1 \<and> \<not> (buttonPin inp = HIGH \<and> prevButton s \<noteq> HIGH) \<and>
      waitDelayMillis s < millisNow inp - waitStartMillis s"
  let ?s1 = "s\<lparr>prevButton := buttonPin inp, waitStartMillis := 0, state := 8\<rparr>"
  from a have "loop inp s = loopWait (buttonPin inp) (millisNow inp) s"
    by (simp add: loop_def state_defs)
  also from a have "\<dots> = setState (millisNow inp) (state s + 1)
      (s\<lparr>prevButton := buttonPin inp, waitStartMillis := 0\<rparr>)"
    by (intro loopWait_elapsed) simp_all
  also from a have "state s + 1 = 8" by (simp add: state_defs)
  also from a have "setState (millisNow inp) 8 (s\<lparr>prevButton := buttonPin inp, waitStartMillis := 0\<rparr>)
      = Inr ?s1"
    by (simp add: setState_other state_defs)
  finally have first: "loop inp s = Inr ?s1" .
  have "loop inp2 ?s1 = setState (millisNow inp2) STATE_SEND_0 ?s1" for inp2
    by (simp add: loop_def state_defs)
  moreover have "state ?s1 \<noteq> STATE_SEND_0"
    by (simp add: state_defs)
  ultimately have "\<exists>s2. loop inp2 ?s1 = Inr s2 \<and> state s2 = STATE_SEND_0 \<and>
            txBuf s2 = Some 0 \<and> \<not> txHigh s2 \<and> txLen s2 = of_nat (trimTail (sig s) 0 400)" for inp2
    by (simp add: setState_SEND_0)
  with first show "\<exists>s1. loop inp s = Inr s1 \<and> state s1 = 8 \<and>
         (\<forall>inp2. \<exists>s2. loop inp2 s1 = Inr s2 \<and> state s2 = STATE_SEND_0 \<and>
            txBuf s2 = Some 0 \<and> \<not> txHigh s2 \<and> txLen s2 = of_nat (trimTail (sig s) 0 400))"
    by (intro exI [of _ ?s1]) simp
next
  assume a: "STATE_WAIT_1 < state s"
  then have "loop inp s = setState (millisNow inp) STATE_SEND_0 s"
    by (auto simp: loop_def state_defs)
  moreover from a have "state s \<noteq> STATE_SEND_0" by (auto simp: state_defs)
  ultimately show "\<exists>s'. loop inp s = Inr s' \<and> state s' = STATE_SEND_0 \<and> txBuf s' = Some 0"
    by (simp add: setState_SEND_0)
next
  assume a: "(state s = STATE_SEND_0 \<or> state s = STATE_SEND_1) \<and> txLen s = 1 \<and>
      txBuf s = Some p \<and> p < 800"
  let ?s1 = "s\<lparr>out := out s @ txSegment (txHigh s) (sig s p) @ [NoTone kTxPin],
        txBuf := None, txLen := 0, txHigh := \<not> txHigh s\<rparr>"
  from a have "loop inp s = loopTx (millisNow inp) s"
    by (auto simp: loop_def state_defs)
  also from a have "\<dots> = setState (millisNow inp) (state s + 1) ?s1"
    by (intro loopTx_last) simp_all
  finally have l: "loop inp s = setState (millisNow inp) (state s + 1) ?s1" .
  from a show "\<exists>s'. loop inp s = Inr s' \<and> state s' = state s + 1 \<and>
         waitStartMillis s' = millisNow inp \<and> waitDelayMillis s' = 43200000"
  proof (elim conjE disjE)
    assume "state s = STATE_SEND_0"
    then have "state s + 1 = STATE_WAIT_0" "state ?s1 \<noteq> STATE_WAIT_0"
      by (simp_all add: state_defs)
    with l show ?thesis
      by (simp add: setState_WAIT_0 kDelay1Millis_def)
  next
    assume "state s = STATE_SEND_1"
    then have "state s + 1 = STATE_WAIT_1" "state ?s1 \<noteq> STATE_WAIT_1"
      by (simp_all add: state_defs)
    with l show ?thesis
      by (simp add: setState_WAIT_1 kDelay1Millis_def kCycleMillis_def)
  qed
qed

theorem wait_advances_to_send_witness:
  "\<exists>s1 s2. loop (poll LOW HIGH 0 43200001)
       (powerOn\<lparr>state := STATE_WAIT_1, prevButton := LOW, waitDelayMillis := 43200000\<rparr>) = Inr s1 \<and>
     state s1 = 8 \<and> loop (poll LOW HIGH 5 43200002) s1 = Inr s2 \<and> state s2 = STATE_SEND_0"
proof -
  let ?s = "powerOn\<lparr>state := STATE_WAIT_1, prevButton := LOW, waitDelayMillis := 43200000\<rparr>"
  let ?inp = "poll LOW HIGH 0 43200001"
  have h: "state ?s = STATE_WAIT_1 \<and> \<not> (buttonPin ?inp = HIGH \<and> prevButton ?s \<noteq> HIGH) \<and>
      waitDelayMillis ?s < millisNow ?inp - waitStartMillis ?s"
    by (simp add: poll_def powerOn_def HIGH_def LOW_def)
  from wait_advances_to_send [of ?s ?inp, THEN conjunct2, THEN conjunct1, THEN mp, OF h]
  obtain s1 where a: "loop ?inp ?s = Inr s1" and b: "state s1 = 8"
    and c: "\<forall>inp2. \<exists>s2. loop inp2 s1 = Inr s2 \<and> state s2 = STATE_SEND_0 \<and>
            txBuf s2 = Some 0 \<and> \<not> txHigh s2 \<and> txLen s2 = of_nat (trimTail (sig ?s) 0 400)"
    by (elim exE conjE)
  from c [rule_format, of "poll LOW HIGH 5 43200002"]
  obtain s2 where d: "loop (poll LOW HIGH 5 43200002) s1 = Inr s2" and e: "state s2 = STATE_SEND_0"
    by (elim exE conjE)
  from a b d e show ?thesis
    by (intro exI conjI)
qed

section \<open>Properties: whole runs\<close>

text \<open>
  A slot of zeros can be learned: one transition seen at clock value 65536 is stored as
  the duration 0, and the silence after it completes the capture. Playback of that
  slot then starts with \<open>txLen = 0\<close>, and its first poll wraps \<open>txLen\<close> to 65,535 and
  stays in \<open>STATE_SEND_0\<close>.
\<close>

lemma empty_slot_reachable:
  "\<exists>s. run [poll LOW HIGH 0 0, poll HIGH HIGH 0 0,
           poll HIGH LOW 65536 0, poll HIGH LOW 131072 0,
           poll HIGH LOW 140000 0, poll HIGH LOW 210000 0,
           poll LOW HIGH 0 0, poll HIGH HIGH 0 0, poll HIGH HIGH 0 0] (setup_board powerOn) = Inr s \<and>
     reachable s \<and> state s = STATE_SEND_0 \<and> txLen s = 65535 \<and> txBuf s = Some 1 \<and>
     (\<forall>j < 400. sig s j = 0)"
proof -
  let ?pre = "[poll LOW HIGH 0 0, poll HIGH HIGH 0 0,
           poll HIGH LOW 65536 0, poll HIGH LOW 131072 0,
           poll HIGH LOW 140000 0, poll HIGH LOW 210000 0, poll LOW HIGH 0 0]"
  have "\<exists>s. run ?pre (setup_board powerOn) = Inr s \<and>
     state s = STATE_INITED \<and> prevButton s = LOW \<and> (\<forall>j < 400. sig s j = 0)"
    by (simp add: run_defs)
  then obtain s where r: "run ?pre (setup_board powerOn) = Inr s"
    and s: "state s = STATE_INITED" "prevButton s = LOW" and z: "\<forall>j < 400. sig s j = 0"
    by blast
  let ?s1 = "s\<lparr>state := STATE_SEND_0, prevButton := HIGH,
       out := out s @ [DigitalWrite kRedLedPin HIGH],
       txBuf := Some 0, txLen := 0, txHigh := False\<rparr>"
  let ?s2 = "?s1\<lparr>txBuf := Some 1, txLen := 65535, txHigh := True\<rparr>"
  from z have N: "trimTail (sig s) 0 400 = 0"
    by (intro trimTail_zero) simp
  from s have "loop (poll HIGH HIGH 0 0) s = setState 0 STATE_SEND_0 (s\<lparr>prevButton := HIGH\<rparr>)"
    by (simp add: loop_def loopInitialized_def isButtonEvent_def poll_def state_defs HIGH_def LOW_def)
  moreover from s have "state (s\<lparr>prevButton := HIGH\<rparr>) \<noteq> STATE_SEND_0"
    by (simp add: state_defs)
  ultimately have l1: "loop (poll HIGH HIGH 0 0) s = Inr ?s1"
    using N by (cases s) (simp add: setState_SEND_0)
  have "loop (poll HIGH HIGH 0 0) ?s1 = loopTx 0 ?s1"
    by (simp add: loop_def poll_def state_defs)
  also have "\<dots> = Inr (?s1\<lparr>out := out ?s1 @ txSegment (txHigh ?s1) (sig ?s1 0),
     txBuf := Some (0 + 1), txLen := txLen ?s1 - 1, txHigh := \<not> txHigh ?s1\<rparr>)"
    by (rule loopTx_more) simp_all
  also have "\<dots> = Inr ?s2"
    using z by (cases s) (simp add: txSegment_def)
  finally have l2: "loop (poll HIGH HIGH 0 0) ?s1 = Inr ?s2" .
  have tail: "run [poll HIGH HIGH 0 0, poll HIGH HIGH 0 0] s = Inr ?s2"
    by (simp only: run.simps l1 l2 sum.case)
  have whole: "run (?pre @ [poll HIGH HIGH 0 0, poll HIGH HIGH 0 0]) (setup_board powerOn) = Inr ?s2"
    by (simp only: run_append r tail sum.case)
  then have "reachable ?s2"
    by (rule reachable_run [OF reachable_setup])
  with whole z show ?thesis
    by (intro exI [of _ ?s2]) simp
qed

lemma trimTail_numeral:
  "trimTail m p (numeral k) =
     (if m (p + pred_numeral k) = 0 then trimTail m p (pred_numeral k) else numeral k)"
  by (simp add: numeral_eq_Suc)

text \<open>
  A complete run from power-on, as the scenarios of the specification describe it: a
  button press, the capture of two signals, a second press, the playback of slot 0,
  the short wait, the playback of slot 1, the long wait, one poll in the state value 8
  and the return to \<open>STATE_SEND_0\<close>. The hardware calls after \<open>setup()\<close> are listed in
  order.
\<close>

lemma complete_cycle_run:
  "map_sum id (\<lambda>s. (state s, waitDelayMillis s, txLen s, drop 10 (out s)))
     (run [poll LOW HIGH 0 0, poll HIGH HIGH 0 0,
           poll HIGH LOW 1000 0, poll HIGH HIGH 1500 0, poll HIGH HIGH 67036 0,
           poll HIGH LOW 80000 0, poll HIGH HIGH 80700 0, poll HIGH HIGH 150000 0,
           poll LOW HIGH 0 0, poll HIGH HIGH 0 0,
           poll HIGH HIGH 0 0, poll HIGH HIGH 0 100,
           poll HIGH HIGH 0 43200100, poll HIGH HIGH 0 43200101,
           poll HIGH HIGH 0 43200102, poll HIGH HIGH 0 43200103,
           poll HIGH HIGH 0 86400104, poll HIGH HIGH 0 86400105] (setup_board powerOn))
   = Inr (STATE_SEND_0, 43200000, 2,
       [DigitalWrite kRedLedPin HIGH, DigitalWrite kGreenLedPin LOW,
        DigitalWrite kRedLedPin HIGH, DigitalWrite kGreenLedPin HIGH,
        DigitalWrite kRedLedPin LOW, DigitalWrite kGreenLedPin HIGH,
        DigitalWrite kRedLedPin HIGH,
        NoTone kTxPin, DelayMicroseconds 1000, Tone kTxPin kCarrierFreq, DelayMicroseconds 500,
        NoTone kTxPin, DigitalWrite LED_BUILTIN HIGH, DigitalWrite kRedLedPin LOW,
        DigitalWrite kRedLedPin HIGH,
        NoTone kTxPin, DelayMicroseconds 14464, Tone kTxPin kCarrierFreq, DelayMicroseconds 700,
        NoTone kTxPin, DigitalWrite LED_BUILTIN LOW, DigitalWrite kRedLedPin LOW,
        DigitalWrite kRedLedPin HIGH])"
  by (simp add: run_defs trimTail_numeral kDelay1Millis_def kCycleMillis_def)

end
